theory Spec2Isabelle
  imports Main
begin

section \<open>Text\<close>

text \<open>
  Python strings are sequences of code points. They are modelled as \<^typ>\<open>string\<close>,
  one \<^typ>\<open>char\<close> per code point, which covers the code points below 256.
  The helpers of this section are the string methods and the regular-expression
  classes that \<^verbatim>\<open>backend/mac_manager.py\<close> uses.
\<close>

definition TAB :: char where
  "TAB = CHR 0x09"

definition NL :: char where
  "NL = CHR 0x0A"

definition CR :: char where
  "CR = CHR 0x0D"

definition BAR :: char where
  "BAR = CHR ''|''"

text \<open>
  \<^verbatim>\<open>str.isspace\<close>, which is also the class \<^verbatim>\<open>\s\<close> of a \<^verbatim>\<open>str\<close> pattern:
  below 256 these are the code points 9 to 13, 28 to 32, 133 and 160.
\<close>

definition is_space :: "char \<Rightarrow> bool" where
  "is_space c = ((of_char c :: nat) \<in> set [9, 10, 11, 12, 13, 28, 29, 30, 31, 32, 133, 160])"

definition is_digit :: "char \<Rightarrow> bool" where
  "is_digit c = (c \<in> set ''0123456789'')"

definition is_upper_hex :: "char \<Rightarrow> bool" where
  "is_upper_hex c = (c \<in> set ''0123456789ABCDEF'')"

text \<open>The class \<^verbatim>\<open>[0-9A-Fa-f]\<close>.\<close>

definition is_hex :: "char \<Rightarrow> bool" where
  "is_hex c = (c \<in> set ''0123456789ABCDEFabcdef'')"

definition is_alnum :: "char \<Rightarrow> bool" where
  "is_alnum c = (c \<in> set ''abcdefghijklmnopqrstuvwxyzABCDEFGHIJKLMNOPQRSTUVWXYZ0123456789'')"

text \<open>The class \<^verbatim>\<open>[a-zA-Z0-9_\-\s]\<close> of \<^verbatim>\<open>validate_device_name\<close>.\<close>

definition is_name_char :: "char \<Rightarrow> bool" where
  "is_name_char c = (is_alnum c \<or> c = CHR ''_'' \<or> c = CHR ''-'' \<or> is_space c)"

text \<open>
  \<^verbatim>\<open>str.upper\<close> and \<^verbatim>\<open>str.lower\<close> on the letters a to z. Python also maps
  other letters. The manager upper-cases a string only to filter it by
  \<^verbatim>\<open>[0-9A-Fa-f]\<close> right after, and below 256 no other letter becomes a
  hexadecimal digit; it lower-cases only cleaned names, whose letters are a to z
  and A to Z.
\<close>

definition upper_char :: "char \<Rightarrow> char" where
  "upper_char c =
     (case map_of (zip ''abcdefghijklmnopqrstuvwxyz'' ''ABCDEFGHIJKLMNOPQRSTUVWXYZ'') c of
        Some u \<Rightarrow> u
      | None \<Rightarrow> c)"

definition lower_char :: "char \<Rightarrow> char" where
  "lower_char c =
     (case map_of (zip ''ABCDEFGHIJKLMNOPQRSTUVWXYZ'' ''abcdefghijklmnopqrstuvwxyz'') c of
        Some l \<Rightarrow> l
      | None \<Rightarrow> c)"

definition upper :: "string \<Rightarrow> string" where
  "upper s = map upper_char s"

definition lower :: "string \<Rightarrow> string" where
  "lower s = map lower_char s"

text \<open>\<^verbatim>\<open>str.strip()\<close>: whitespace is removed at both ends.\<close>

definition lstrip :: "string \<Rightarrow> string" where
  "lstrip s = dropWhile is_space s"

definition rstrip :: "string \<Rightarrow> string" where
  "rstrip s = rev (dropWhile is_space (rev s))"

definition strip :: "string \<Rightarrow> string" where
  "strip s = rstrip (lstrip s)"

text \<open>\<^verbatim>\<open>sep.join(parts)\<close>.\<close>

fun join :: "string \<Rightarrow> string list \<Rightarrow> string" where
  "join sep [] = []"
| "join sep [x] = x"
| "join sep (x # y # ys) = x @ sep @ join sep (y # ys)"

text \<open>
  \<^verbatim>\<open>s.split(c)\<close> for a one-character separator: the result has one more
  element than \<open>s\<close> has separators, so it is never empty.
\<close>

fun split :: "char \<Rightarrow> string \<Rightarrow> string list" where
  "split c [] = [[]]"
| "split c (x # xs) =
     (if x = c then [] # split c xs
      else (case split c xs of
              [] \<Rightarrow> [[x]]
            | p # ps \<Rightarrow> (x # p) # ps))"

text \<open>\<^verbatim>\<open>s.split(c, 1)\<close> when \<open>c\<close> occurs in \<open>s\<close>: the text before and after the first \<open>c\<close>.\<close>

definition split_first :: "char \<Rightarrow> string \<Rightarrow> string \<times> string" where
  "split_first c s = (takeWhile (\<lambda>x. x \<noteq> c) s, drop 1 (dropWhile (\<lambda>x. x \<noteq> c) s))"

text \<open>\<^verbatim>\<open>str(n)\<close> for an integer: decimal digits, with a minus sign when negative.\<close>

definition digit_char :: "nat \<Rightarrow> char" where
  "digit_char d = ''0123456789'' ! (d mod 10)"

function str_nat :: "nat \<Rightarrow> string" where
  "str_nat n = (if n < 10 then [digit_char n] else str_nat (n div 10) @ [digit_char (n mod 10)])"
  by pat_completeness auto
termination
  by (relation "measure id") auto

declare str_nat.simps [simp del]

definition str_int :: "int \<Rightarrow> string" where
  "str_int i = (if i < 0 then CHR ''-'' # str_nat (nat (- i)) else str_nat (nat i))"

text \<open>
  \<^verbatim>\<open>int(s)\<close> in base ten: surrounding whitespace is ignored, one sign is allowed,
  and the digits may be grouped by single underscores. \<open>None\<close> stands for
  \<^verbatim>\<open>ValueError\<close>. (Interpreters that limit the number of digits of a conversion
  raise \<^verbatim>\<open>ValueError\<close> beyond the limit; the limit is not modelled.)
\<close>

definition digit_val :: "char \<Rightarrow> nat" where
  "digit_val c = (of_char c :: nat) - 48"

fun no_double_underscore :: "string \<Rightarrow> bool" where
  "no_double_underscore (a # b # cs) =
     (\<not> (a = CHR ''_'' \<and> b = CHR ''_'') \<and> no_double_underscore (b # cs))"
| "no_double_underscore _ = True"

definition int_digits :: "string \<Rightarrow> nat option" where
  "int_digits s =
     (if s \<noteq> [] \<and> list_all (\<lambda>c. is_digit c \<or> c = CHR ''_'') s
         \<and> hd s \<noteq> CHR ''_'' \<and> last s \<noteq> CHR ''_'' \<and> no_double_underscore s
      then Some (foldl (\<lambda>a c. 10 * a + digit_val c) 0 (filter is_digit s))
      else None)"

definition py_int :: "string \<Rightarrow> int option" where
  "py_int s =
     (case strip s of
        [] \<Rightarrow> None
      | c # r \<Rightarrow>
          if c = CHR ''+'' then map_option int (int_digits r)
          else if c = CHR ''-'' then map_option (\<lambda>n. - int n) (int_digits r)
          else map_option int (int_digits (c # r)))"

section \<open>The device registry (\<^verbatim>\<open>backend/mac_manager.py\<close>)\<close>

text \<open>
  Every \<^verbatim>\<open>raise\<close> of the manager is a value of this type: the two
  \<^verbatim>\<open>ValueError\<close>s of \<^verbatim>\<open>normalize_mac\<close>, the two of
  \<^verbatim>\<open>validate_device_name\<close>, the duplicate and not-found \<^verbatim>\<open>ValueError\<close>s of
  the CRUD methods, and the \<^verbatim>\<open>RuntimeError\<close> raised when a save fails.
\<close>

datatype error =
    InvalidMacLength
  | InvalidMacFormat
  | EmptyName
  | NoValidChars
  | DuplicateMac
  | DuplicateName
  | NotFound
  | SaveFailed

subsection \<open>\<^verbatim>\<open>normalize_mac\<close>\<close>

text \<open>\<^verbatim>\<open>[clean_mac[i:i+2] for i in range(0, 12, 2)]\<close>\<close>

definition octets :: "string \<Rightarrow> string list" where
  "octets clean_mac = map (\<lambda>i. take 2 (drop i clean_mac)) [0, 2, 4, 6, 8, 10]"

definition normalize_mac :: "string \<Rightarrow> error + string" where
  "normalize_mac mac_address =
     (let clean_mac = filter is_hex (upper mac_address) in
      if length clean_mac \<noteq> 12 then Inl InvalidMacLength
      else if \<not> list_all is_upper_hex clean_mac then Inl InvalidMacFormat
      else Inr (join '':'' (octets clean_mac)))"

subsection \<open>\<^verbatim>\<open>validate_device_name\<close>\<close>

definition validate_device_name :: "string \<Rightarrow> error + string" where
  "validate_device_name name =
     (if name = [] \<or> strip name = [] then Inl EmptyName
      else let clean_name = filter is_name_char (strip name) in
        if length clean_name = 0 then Inl NoValidChars
        else if length clean_name > 50 then Inr (take 50 clean_name)
        else Inr clean_name)"

subsection \<open>Device records and the store file\<close>

text \<open>
  A device is the dictionary that \<^verbatim>\<open>load_mac_addresses\<close> and \<^verbatim>\<open>add_device\<close>
  build. The keys \<^verbatim>\<open>added_date\<close> and \<^verbatim>\<open>updated_date\<close> hold the wall-clock
  time of the call and are never read; they are left out.
\<close>

record device =
  dev_id :: int
  dev_name :: string
  mac :: string
  original_mac :: string
  enabled :: bool
  line_number :: nat

text \<open>
  The files the manager touches: the store file (\<open>None\<close> when it does not
  exist) and the backup directory, a list of (file name, content) pairs with
  the newest first.
\<close>

record fs =
  store :: "string option"
  backups :: "(string \<times> string) list"

text \<open>
  What the environment decides during one call of the manager: which of the
  file operations raise, and the clock reading that names the backup file
  (\<^verbatim>\<open>strftime('%Y%m%d_%H%M%S')\<close>). A failing write is taken to leave its
  file as it was.
\<close>

record io =
  load_read_fails :: bool
  backup_read_fails :: bool
  backup_write_fails :: bool
  store_write_fails :: bool
  now :: string

text \<open>
  \<^verbatim>\<open>Path.read_text\<close> opens the file in text mode, which turns \<^verbatim>\<open>\r\n\<close> and a
  lone \<^verbatim>\<open>\r\<close> into \<^verbatim>\<open>\n\<close>. \<^verbatim>\<open>Path.write_text\<close> writes the text as it is
  (POSIX).
\<close>

fun read_text :: "string \<Rightarrow> string" where
  "read_text [] = []"
| "read_text [c] = [if c = CR then NL else c]"
| "read_text (c # d # cs) =
     (if c = CR \<and> d = NL then NL # read_text cs
      else if c = CR then NL # read_text (d # cs)
      else c # read_text (d # cs))"

subsection \<open>\<^verbatim>\<open>load_mac_addresses\<close>\<close>

text \<open>
  The body of the loop over the lines: \<open>None\<close> is \<^verbatim>\<open>continue\<close> (an empty,
  malformed or invalid line is skipped).
\<close>

definition parse_line :: "nat \<Rightarrow> string \<Rightarrow> device option" where
  "parse_line line_num raw_line =
     (let line = strip raw_line in
      if line = [] then None
      else
        let parts = split TAB line in
        if length parts < 2 then None
        else
          let id_name_part = parts ! 0;
              mac_part = parts ! 1;
              (device_id, name) =
                (if BAR \<in> set id_name_part then
                   (let (id_str, name) = split_first BAR id_name_part in
                    (case py_int id_str of
                       Some i \<Rightarrow> (i, name)
                     | None \<Rightarrow> (int line_num, name)))
                 else (int line_num, id_name_part))
          in
          (case normalize_mac mac_part of
             Inl e \<Rightarrow> None
           | Inr normalized_mac \<Rightarrow>
               (case validate_device_name name of
                  Inl e \<Rightarrow> None
                | Inr clean_name \<Rightarrow>
                    Some \<lparr>dev_id = device_id, dev_name = clean_name, mac = normalized_mac,
                          original_mac = mac_part, enabled = True, line_number = line_num\<rparr>)))"

fun parse_lines :: "nat \<Rightarrow> string list \<Rightarrow> device list" where
  "parse_lines line_num [] = []"
| "parse_lines line_num (line # rest) =
     (case parse_line line_num line of
        None \<Rightarrow> parse_lines (Suc line_num) rest
      | Some d \<Rightarrow> d # parse_lines (Suc line_num) rest)"

definition load_mac_addresses :: "io \<Rightarrow> fs \<Rightarrow> device list" where
  "load_mac_addresses e f =
     (case store f of
        None \<Rightarrow> []
      | Some file_text \<Rightarrow>
          if load_read_fails e then []
          else
            let content = strip (read_text file_text) in
            if content = [] then []
            else parse_lines 1 (split NL content))"

subsection \<open>\<^verbatim>\<open>save_mac_addresses\<close>\<close>

definition backup_name :: "string \<Rightarrow> string" where
  "backup_name stamp = ''mac_addresses_'' @ stamp @ ''.txt''"

definition store_line :: "device \<Rightarrow> string" where
  "store_line d = str_int (dev_id d) @ [BAR] @ dev_name d @ [TAB] @ original_mac d @ [TAB]"

definition store_text :: "device list \<Rightarrow> string" where
  "store_text devices =
     join [NL] (map store_line (filter enabled (sort_key dev_id devices))) @ [NL]"

text \<open>
  The whole body is one \<^verbatim>\<open>try\<close>: whatever raises, the backup included, ends
  the call with \<^verbatim>\<open>False\<close>.
\<close>

definition save_mac_addresses :: "io \<Rightarrow> fs \<Rightarrow> device list \<Rightarrow> bool \<times> fs" where
  "save_mac_addresses e f devices =
     (case (case store f of
              None \<Rightarrow> Some f
            | Some file_text \<Rightarrow>
                if backup_read_fails e \<or> backup_write_fails e then None
                else Some (f\<lparr>backups := (backup_name (now e), read_text file_text) # backups f\<rparr>)) of
        None \<Rightarrow> (False, f)
      | Some f1 \<Rightarrow>
          if store_write_fails e then (False, f1)
          else (True, f1\<lparr>store := Some (store_text devices)\<rparr>))"

subsection \<open>\<^verbatim>\<open>add_device\<close>, \<^verbatim>\<open>update_device\<close>, \<^verbatim>\<open>delete_device\<close> and the reads\<close>

text \<open>The duplicate loop of \<^verbatim>\<open>add_device\<close>: the first device that collides decides the error.\<close>

fun find_duplicate :: "device list \<Rightarrow> string \<Rightarrow> string \<Rightarrow> error option" where
  "find_duplicate [] normalized_mac clean_name = None"
| "find_duplicate (d # ds) normalized_mac clean_name =
     (if mac d = normalized_mac then Some DuplicateMac
      else if lower (dev_name d) = lower clean_name then Some DuplicateName
      else find_duplicate ds normalized_mac clean_name)"

definition max_id :: "device list \<Rightarrow> int" where
  "max_id devices = (if devices = [] then 0 else Max (set (map dev_id devices)))"

definition add_device :: "io \<Rightarrow> fs \<Rightarrow> string \<Rightarrow> string \<Rightarrow> (error + device) \<times> fs" where
  "add_device e f name raw_mac =
     (let devices = load_mac_addresses e f in
      case validate_device_name name of
        Inl err \<Rightarrow> (Inl err, f)
      | Inr clean_name \<Rightarrow>
          (case normalize_mac raw_mac of
             Inl err \<Rightarrow> (Inl err, f)
           | Inr normalized_mac \<Rightarrow>
               (case find_duplicate devices normalized_mac clean_name of
                  Some err \<Rightarrow> (Inl err, f)
                | None \<Rightarrow>
                    let new_device =
                          \<lparr>dev_id = max_id devices + 1, dev_name = clean_name,
                           mac = normalized_mac, original_mac = raw_mac, enabled = True,
                           line_number = length devices + 1\<rparr>
                    in (case save_mac_addresses e f (devices @ [new_device]) of
                          (True, f') \<Rightarrow> (Inr new_device, f')
                        | (False, f') \<Rightarrow> (Inl SaveFailed, f')))))"

text \<open>The position of the first element that satisfies \<open>P\<close>.\<close>

fun find_index :: "('a \<Rightarrow> bool) \<Rightarrow> 'a list \<Rightarrow> nat option" where
  "find_index P [] = None"
| "find_index P (x # xs) = (if P x then Some 0 else map_option Suc (find_index P xs))"

text \<open>
  \<^verbatim>\<open>update_device\<close> changes the dictionary it found inside the loaded list, so
  the model updates the list at the position \<open>k\<close> of that device. The three
  optional arguments are \<open>None\<close> when not given.
\<close>

definition update_name :: "device list \<Rightarrow> nat \<Rightarrow> int \<Rightarrow> string option \<Rightarrow> error + device list" where
  "update_name devices k device_id new_name =
     (case new_name of
        None \<Rightarrow> Inr devices
      | Some name \<Rightarrow>
          (case validate_device_name name of
             Inl err \<Rightarrow> Inl err
           | Inr clean_name \<Rightarrow>
               if list_ex (\<lambda>d. dev_id d \<noteq> device_id \<and> lower (dev_name d) = lower clean_name) devices
               then Inl DuplicateName
               else Inr (devices[k := (devices ! k)\<lparr>dev_name := clean_name\<rparr>])))"

definition update_mac :: "device list \<Rightarrow> nat \<Rightarrow> int \<Rightarrow> string option \<Rightarrow> error + device list" where
  "update_mac devices k device_id new_mac =
     (case new_mac of
        None \<Rightarrow> Inr devices
      | Some raw_mac \<Rightarrow>
          (case normalize_mac raw_mac of
             Inl err \<Rightarrow> Inl err
           | Inr normalized_mac \<Rightarrow>
               if list_ex (\<lambda>d. dev_id d \<noteq> device_id \<and> mac d = normalized_mac) devices
               then Inl DuplicateMac
               else Inr (devices[k := (devices ! k)\<lparr>mac := normalized_mac, original_mac := raw_mac\<rparr>])))"

definition update_enabled :: "device list \<Rightarrow> nat \<Rightarrow> bool option \<Rightarrow> device list" where
  "update_enabled devices k new_enabled =
     (case new_enabled of
        None \<Rightarrow> devices
      | Some b \<Rightarrow> devices[k := (devices ! k)\<lparr>enabled := b\<rparr>])"

definition update_device ::
  "io \<Rightarrow> fs \<Rightarrow> int \<Rightarrow> string option \<Rightarrow> string option \<Rightarrow> bool option \<Rightarrow> (error + device) \<times> fs" where
  "update_device e f device_id new_name new_mac new_enabled =
     (let devices = load_mac_addresses e f in
      case find_index (\<lambda>d. dev_id d = device_id) devices of
        None \<Rightarrow> (Inl NotFound, f)
      | Some k \<Rightarrow>
          (case update_name devices k device_id new_name of
             Inl err \<Rightarrow> (Inl err, f)
           | Inr devices1 \<Rightarrow>
               (case update_mac devices1 k device_id new_mac of
                  Inl err \<Rightarrow> (Inl err, f)
                | Inr devices2 \<Rightarrow>
                    let devices3 = update_enabled devices2 k new_enabled in
                    (case save_mac_addresses e f devices3 of
                       (True, f') \<Rightarrow> (Inr (devices3 ! k), f')
                     | (False, f') \<Rightarrow> (Inl SaveFailed, f')))))"

text \<open>\<^verbatim>\<open>delete_device\<close> returns what the save returns; it raises only for an unknown id.\<close>

definition delete_device :: "io \<Rightarrow> fs \<Rightarrow> int \<Rightarrow> (error + bool) \<times> fs" where
  "delete_device e f device_id =
     (let devices = load_mac_addresses e f;
          remaining = filter (\<lambda>d. dev_id d \<noteq> device_id) devices
      in if length remaining = length devices then (Inl NotFound, f)
         else (case save_mac_addresses e f remaining of (ok, f') \<Rightarrow> (Inr ok, f')))"

definition get_device :: "io \<Rightarrow> fs \<Rightarrow> int \<Rightarrow> device option" where
  "get_device e f device_id = find (\<lambda>d. dev_id d = device_id) (load_mac_addresses e f)"

definition get_all_devices :: "io \<Rightarrow> fs \<Rightarrow> device list" where
  "get_all_devices e f = load_mac_addresses e f"

definition get_enabled_devices :: "io \<Rightarrow> fs \<Rightarrow> device list" where
  "get_enabled_devices e f = filter enabled (load_mac_addresses e f)"

subsection \<open>Devices that fit the store format\<close>

text \<open>
  A line of the store is \<^verbatim>\<open>"{id}|{name}\t{original_mac}\t"\<close>. It is read back as
  one line with these two fields when neither field holds a tab or a line
  break, and the MAC field is not blank.
\<close>

definition plain_field :: "string \<Rightarrow> bool" where
  "plain_field s = (TAB \<notin> set s \<and> NL \<notin> set s \<and> CR \<notin> set s)"

definition fits_store :: "device \<Rightarrow> bool" where
  "fits_store d =
     (plain_field (dev_name d) \<and> plain_field (original_mac d)
      \<and> \<not> list_all is_space (original_mac d))"

subsection \<open>Sequences of operations\<close>

text \<open>
  The callers of the manager (the HTTP routes, the import) issue one operation
  after the other on the same files. An operation that raises leaves the files
  to the next one as the operation left them.
\<close>

datatype operation =
    Add string string
  | Update int "string option" "string option" "bool option"
  | Delete int

fun apply_operation :: "io \<Rightarrow> fs \<Rightarrow> operation \<Rightarrow> fs" where
  "apply_operation e f (Add name raw_mac) = snd (add_device e f name raw_mac)"
| "apply_operation e f (Update device_id new_name new_mac new_enabled) =
     snd (update_device e f device_id new_name new_mac new_enabled)"
| "apply_operation e f (Delete device_id) = snd (delete_device e f device_id)"

definition run_operations :: "io \<Rightarrow> fs \<Rightarrow> operation list \<Rightarrow> fs" where
  "run_operations e f ops = foldl (apply_operation e) f ops"

text \<open>The three uniqueness invariants of the data model, on a list of devices.\<close>

definition unique_ids :: "device list \<Rightarrow> bool" where
  "unique_ids devices = distinct (map dev_id devices)"

definition unique_macs :: "device list \<Rightarrow> bool" where
  "unique_macs devices = distinct (map mac devices)"

definition unique_names :: "device list \<Rightarrow> bool" where
  "unique_names devices = distinct (map (\<lambda>d. lower (dev_name d)) devices)"

section \<open>The configuration document (\<^verbatim>\<open>xml.etree.ElementTree\<close>)\<close>

text \<open>
  An element has a tag, attributes, a text (\<open>text_of\<close>), a tail and children. The empty
  string stands for a text that is \<^verbatim>\<open>None\<close> or empty: both are written the same
  way by \<^verbatim>\<open>ET.tostring\<close> and read back as \<^verbatim>\<open>None\<close>, and the code tests a
  text for truth or compares it with a string (\<open>alias_named\<close> below, where
  \<^verbatim>\<open>None\<close> differs from every string).
\<close>

datatype xml =
  Element (tag: string) (attrib: "(string \<times> string) list") (text_of: string) (tail: string)
    (children: "xml list")

definition set_children :: "xml list \<Rightarrow> xml \<Rightarrow> xml" where
  "set_children cs e = Element (tag e) (attrib e) (text_of e) (tail e) cs"

definition set_text :: "string \<Rightarrow> xml \<Rightarrow> xml" where
  "set_text s e = Element (tag e) (attrib e) s (tail e) (children e)"

text \<open>\<^verbatim>\<open>ET.SubElement(parent, tag)\<close> appends a new element; here with its text and children already set.\<close>

definition leaf :: "string \<Rightarrow> string \<Rightarrow> xml" where
  "leaf t s = Element t [] s [] []"

definition append_child :: "xml \<Rightarrow> xml \<Rightarrow> xml" where
  "append_child new e = set_children (children e @ [new]) e"

text \<open>\<^verbatim>\<open>elem.find(tag)\<close> for a plain tag: the position of the first child with that tag.\<close>

definition find_child :: "string \<Rightarrow> xml \<Rightarrow> nat option" where
  "find_child t e = find_index (\<lambda>c. tag c = t) (children e)"

text \<open>
  Elements are objects that the code changes in place. The model names an
  element by its path, the child positions from the root, and rebuilds the
  tree around the change.
\<close>

primrec subtree :: "xml \<Rightarrow> nat list \<Rightarrow> xml" where
  "subtree e [] = e"
| "subtree e (i # p) = subtree (children e ! i) p"

primrec update_at :: "nat list \<Rightarrow> (xml \<Rightarrow> xml) \<Rightarrow> xml \<Rightarrow> xml" where
  "update_at [] g e = g e"
| "update_at (i # p) g e = set_children ((children e)[i := update_at p g (children e ! i)]) e"

text \<open>
  \<^verbatim>\<open>root.find(".//OPNsense/Firewall/Alias/aliases")\<close>. \<open>chain\<close> follows the
  child steps of the path below one element and returns the first full match;
  \<open>iter_find\<close> visits the descendants with the first tag in document order
  (the root itself is not visited) and returns the first match of the whole path.
\<close>

primrec first_some :: "(nat \<Rightarrow> 'a option) \<Rightarrow> nat list \<Rightarrow> 'a option" where
  "first_some g [] = None"
| "first_some g (i # is) = (case g i of Some r \<Rightarrow> Some r | None \<Rightarrow> first_some g is)"

primrec chain :: "string list \<Rightarrow> xml \<Rightarrow> nat list option" where
  "chain [] e = Some []"
| "chain (t # ts) e =
     first_some
       (\<lambda>i. if tag (children e ! i) = t then map_option ((#) i) (chain ts (children e ! i)) else None)
       [0 ..< length (children e)]"

fun iter_find :: "string \<Rightarrow> string list \<Rightarrow> xml \<Rightarrow> nat list option"
  and iter_list :: "string \<Rightarrow> string list \<Rightarrow> nat \<Rightarrow> xml list \<Rightarrow> nat list option" where
  "iter_find t ts (Element _ _ _ _ cs) = iter_list t ts 0 cs"
| "iter_list t ts i [] = None"
| "iter_list t ts i (c # cs) =
     (case (if tag c = t then chain ts c else None) of
        Some p \<Rightarrow> Some (i # p)
      | None \<Rightarrow>
          (case iter_find t ts c of
             Some p \<Rightarrow> Some (i # p)
           | None \<Rightarrow> iter_list t ts (Suc i) cs))"

text \<open>A path is valid in a tree when every position on it exists.\<close>

primrec valid_path :: "xml \<Rightarrow> nat list \<Rightarrow> bool" where
  "valid_path e [] = True"
| "valid_path e (i # p) = (i < length (children e) \<and> valid_path (children e ! i) p)"

text \<open>
  \<open>follows e tags p\<close>: the path \<open>p\<close> is the one that repeated \<^verbatim>\<open>find(tag)\<close>
  calls take from \<open>e\<close>, each to the first child with the next tag.
\<close>

fun follows :: "xml \<Rightarrow> string list \<Rightarrow> nat list \<Rightarrow> bool" where
  "follows e [] [] = True"
| "follows e (t # ts) (i # p) = (find_child t e = Some i \<and> follows (children e ! i) ts p)"
| "follows e _ _ = False"

text \<open>\<^verbatim>\<open>needle in haystack\<close> for strings.\<close>

fun starts_with :: "string \<Rightarrow> string \<Rightarrow> bool" where
  "starts_with [] s = True"
| "starts_with (a # as) [] = False"
| "starts_with (a # as) (b # bs) = (a = b \<and> starts_with as bs)"

fun contains :: "string \<Rightarrow> string \<Rightarrow> bool" where
  "contains needle [] = (needle = [])"
| "contains needle (h # hs) = (starts_with needle (h # hs) \<or> contains needle hs)"

section \<open>The firewall (\<^verbatim>\<open>backend/opnsense_integration.py\<close>)\<close>

subsection \<open>The remote host\<close>

text \<open>
  The text of a configuration file is represented by what \<^verbatim>\<open>ET.fromstring\<close>
  makes of it: an empty text, a text that does not parse, or a document, given
  as the tree that the parser returns. \<^verbatim>\<open>ET.tostring\<close> of a tree is the text
  that parses back to it. This identifies a tree with what is read back from
  its serialization, which holds for the trees that the code serializes: a
  parsed document in which the code has set texts that a parser returns
  unchanged (\<open>parsed_text\<close> below) or has left texts empty. A carriage return
  in a text would be read back as a line feed, and a control character would
  make the text unreadable; such texts occur in no tree that the code builds
  from a parsed document, a clock reading, a uuid and normalized MACs.
\<close>

datatype document = Blank | Garbage | Markup xml

definition fromstring :: "document \<Rightarrow> xml option" where
  "fromstring d = (case d of Markup root \<Rightarrow> Some root | _ \<Rightarrow> None)"

definition tostring :: "xml \<Rightarrow> document" where
  "tostring root = Markup root"

text \<open>
  The characters of a text that \<^verbatim>\<open>ET.fromstring\<close> returns as it was written: the
  tab, the line feed and the characters from the space on. A text of such
  characters that is not empty is read back as the same text.
\<close>

definition xml_char :: "char \<Rightarrow> bool" where
  "xml_char c = (c = CHR 0x09 \<or> c = CHR 0x0A \<or> 32 \<le> (of_char c :: nat))"

definition parsed_text :: "string \<Rightarrow> bool" where
  "parsed_text s = (s \<noteq> [] \<and> list_all xml_char s)"

text \<open>
  One use of the transport: a command run over \<^verbatim>\<open>ssh\<close>, or a file copied with
  \<^verbatim>\<open>scp\<close> to \<^verbatim>\<open>/tmp/new_config.xml\<close>.
\<close>

datatype action = Ssh string | Scp document

text \<open>
  The remote host as the manager sees it: \<^verbatim>\<open>/conf/config.xml\<close>, the uploaded
  \<^verbatim>\<open>/tmp/new_config.xml\<close> when there is one, the backup copies under
  \<^verbatim>\<open>/conf\<close>, and the transport actions issued so far, oldest first.
\<close>

record remote =
  conf :: document
  tmp :: "document option"
  conf_backups :: "(string \<times> document) list"
  cmd_log :: "action list"

text \<open>
  \<^verbatim>\<open>ssh_command\<close> returns \<^verbatim>\<open>(returncode == 0, stdout)\<close> and turns a timeout or
  any exception into \<^verbatim>\<open>(False, message)\<close>. Whether the \<open>k\<close>-th action of the
  transport goes through is decided by the environment, \<open>ok k\<close>. On the host,
  \<^verbatim>\<open>cat\<close> prints the configuration, \<^verbatim>\<open>mv\<close> replaces it by the uploaded file
  (and fails when there is none), \<^verbatim>\<open>cp\<close> stores a copy, and the reload
  commands change no file. The output of a command other than \<^verbatim>\<open>cat\<close> is only
  printed and is modelled as \<open>Blank\<close>.
\<close>

definition cat_cmd :: string where
  "cat_cmd = ''cat /conf/config.xml''"

definition mv_cmd :: string where
  "mv_cmd = ''mv /tmp/new_config.xml /conf/config.xml''"

definition cp_prefix :: string where
  "cp_prefix = ''cp /conf/config.xml /conf/''"

definition ssh_command :: "(nat \<Rightarrow> bool) \<Rightarrow> string \<Rightarrow> remote \<Rightarrow> (bool \<times> document) \<times> remote" where
  "ssh_command ok command r =
     (let k = length (cmd_log r);
          r1 = r\<lparr>cmd_log := cmd_log r @ [Ssh command]\<rparr>
      in if \<not> ok k then ((False, Blank), r1)
         else if command = cat_cmd then ((True, conf r), r1)
         else if command = mv_cmd then
           (case tmp r of
              None \<Rightarrow> ((False, Blank), r1)
            | Some d \<Rightarrow> ((True, Blank), r1\<lparr>conf := d, tmp := None\<rparr>))
         else if starts_with cp_prefix command then
           ((True, Blank),
            r1\<lparr>conf_backups := (drop (length cp_prefix) command, conf r) # conf_backups r\<rparr>)
         else ((True, Blank), r1))"

text \<open>
  The \<^verbatim>\<open>scp\<close> call of \<^verbatim>\<open>apply_config_xml\<close>. A local failure before the copy (the
  temporary file, starting \<^verbatim>\<open>scp\<close>) is caught by the same \<^verbatim>\<open>except\<close> and also
  returns \<^verbatim>\<open>False\<close>; it is part of \<open>ok k\<close> being false.
\<close>

definition scp :: "(nat \<Rightarrow> bool) \<Rightarrow> document \<Rightarrow> remote \<Rightarrow> bool \<times> remote" where
  "scp ok d r =
     (let k = length (cmd_log r);
          r1 = r\<lparr>cmd_log := cmd_log r @ [Scp d]\<rparr>
      in if ok k then (True, r1\<lparr>tmp := Some d\<rparr>) else (False, r1))"

definition backup_config :: "(nat \<Rightarrow> bool) \<Rightarrow> string \<Rightarrow> remote \<Rightarrow> bool \<times> remote" where
  "backup_config ok timestamp r =
     (case ssh_command ok
             (cp_prefix @ ''config_backup_parental_controls_'' @ timestamp @ ''.xml'') r of
        ((success, output), r') \<Rightarrow> (success, r'))"

definition get_config_xml :: "(nat \<Rightarrow> bool) \<Rightarrow> remote \<Rightarrow> document option \<times> remote" where
  "get_config_xml ok r =
     (case ssh_command ok cat_cmd r of
        ((success, config), r') \<Rightarrow> (if success then Some config else None, r'))"

subsection \<open>\<^verbatim>\<open>apply_config_xml\<close>\<close>

definition restart_configd_cmd :: string where
  "restart_configd_cmd = ''configctl webgui restart configd''"

definition filter_reload_cmd :: string where
  "filter_reload_cmd = ''configctl filter reload''"

definition configure_firewall_cmd :: string where
  "configure_firewall_cmd = ''/usr/local/etc/rc.configure_firewall''"

definition filter_configure_cmd :: string where
  "filter_configure_cmd = ''/usr/local/etc/rc.filter_configure''"

definition apply_config_xml :: "(nat \<Rightarrow> bool) \<Rightarrow> document \<Rightarrow> remote \<Rightarrow> bool \<times> remote" where
  "apply_config_xml ok xml_content r0 =
     (case scp ok xml_content r0 of
        (False, r1) \<Rightarrow> (False, r1)
      | (True, r1) \<Rightarrow>
          (case ssh_command ok mv_cmd r1 of
             ((False, output), r2) \<Rightarrow> (False, r2)
           | ((True, output), r2) \<Rightarrow>
               (case ssh_command ok restart_configd_cmd r2 of
                  (warn_a, r3) \<Rightarrow>
                    (case ssh_command ok filter_reload_cmd r3 of
                       (warn_b, r4) \<Rightarrow>
                         (case ssh_command ok configure_firewall_cmd r4 of
                            ((True, output), r5) \<Rightarrow> (True, r5)
                          | ((False, output), r5) \<Rightarrow>
                              (case ssh_command ok filter_configure_cmd r5 of
                                 ((success, output), r6) \<Rightarrow> (success, r6)))))))"

subsection \<open>\<^verbatim>\<open>find_alias_by_name\<close>\<close>

definition aliases_path :: "string list" where
  "aliases_path = [''Firewall'', ''Alias'', ''aliases'']"

text \<open>
  \<^verbatim>\<open>name_elem is not None and name_elem.text == alias_name\<close>, for an element of
  \<^verbatim>\<open>findall("alias")\<close>. The lookup reads a parsed document, in which a text that
  is empty is \<^verbatim>\<open>None\<close>, and \<^verbatim>\<open>None\<close> equals no string, the empty one included.
\<close>

definition alias_named :: "string \<Rightarrow> xml \<Rightarrow> bool" where
  "alias_named alias_name a =
     (tag a = ''alias'' \<and>
      (case find_child ''name'' a of
         Some j \<Rightarrow> text_of (children a ! j) \<noteq> [] \<and> text_of (children a ! j) = alias_name
       | None \<Rightarrow> False))"

text \<open>The result is the path of the alias element, \<open>None\<close> when there is none.\<close>

definition find_alias_by_name :: "xml \<Rightarrow> string \<Rightarrow> nat list option" where
  "find_alias_by_name root alias_name =
     (case iter_find ''OPNsense'' aliases_path root of
        None \<Rightarrow> None
      | Some aliases_section \<Rightarrow>
          map_option (\<lambda>i. aliases_section @ [i])
            (find_index (alias_named alias_name) (children (subtree root aliases_section))))"

subsection \<open>\<^verbatim>\<open>create_or_update_mac_alias\<close>\<close>

text \<open>
  \<^verbatim>\<open>x = parent.find(tag); if x is None: x = ET.SubElement(parent, tag)\<close>, for
  the parent at path \<open>p\<close>. The result is the tree and the path of \<open>x\<close>.
\<close>

definition find_or_create :: "nat list \<Rightarrow> xml \<Rightarrow> xml \<Rightarrow> xml \<times> nat list" where
  "find_or_create p new root =
     (case find_child (tag new) (subtree root p) of
        Some i \<Rightarrow> (root, p @ [i])
      | None \<Rightarrow>
          (update_at p (append_child new) root, p @ [length (children (subtree root p))]))"

text \<open>A new \<^verbatim>\<open>Alias\<close> section is given a \<^verbatim>\<open>version\<close> child.\<close>

definition ensure_sections :: "xml \<Rightarrow> xml \<times> nat list" where
  "ensure_sections root =
     (case find_or_create [] (leaf ''OPNsense'' []) root of
        (root1, opnsense) \<Rightarrow>
          (case find_or_create opnsense (leaf ''Firewall'' []) root1 of
             (root2, firewall) \<Rightarrow>
               (case find_or_create firewall
                       (Element ''Alias'' [] [] [] [leaf ''version'' ''1.0.1'']) root2 of
                  (root3, alias_section) \<Rightarrow>
                    find_or_create alias_section (leaf ''aliases'' []) root3)))"

definition alias_description :: "device list \<Rightarrow> string \<Rightarrow> string" where
  "alias_description enabled_devices timestamp =
     ''Parental Controls MAC Addresses ('' @ str_nat (length enabled_devices)
       @ '' devices) - Auto-generated '' @ timestamp"

definition alias_properties :: "string \<Rightarrow> device list \<Rightarrow> string \<Rightarrow> xml list" where
  "alias_properties alias_name enabled_devices timestamp =
     [leaf ''enabled'' ''1'',
      leaf ''name'' alias_name,
      leaf ''type'' ''mac'',
      leaf ''path_expression'' [],
      leaf ''proto'' [],
      leaf ''interface'' [],
      leaf ''counters'' ''0'',
      leaf ''updatefreq'' [],
      leaf ''content'' (join [NL] (map mac enabled_devices)),
      leaf ''description'' (alias_description enabled_devices timestamp)]"

text \<open>
  The edit of the parsed document, from \<^verbatim>\<open>ET.fromstring\<close> to \<^verbatim>\<open>ET.tostring\<close>:
  the sections are found or created, the alias is looked up by name, a missing
  alias is appended with a new \<^verbatim>\<open>uuid\<close> attribute, and the children of the alias
  are removed and written again. \<open>timestamp\<close> is the clock reading that the
  description embeds (\<^verbatim>\<open>strftime('%Y-%m-%d %H:%M:%S')\<close>), \<open>new_uuid\<close> is the value
  of \<^verbatim>\<open>uuid.uuid4()\<close>.
\<close>

definition alias_upsert :: "string \<Rightarrow> device list \<Rightarrow> string \<Rightarrow> string \<Rightarrow> xml \<Rightarrow> xml" where
  "alias_upsert alias_name enabled_devices new_uuid timestamp root =
     (case ensure_sections root of
        (root1, aliases) \<Rightarrow>
          (case (case find_alias_by_name root1 alias_name of
                   Some existing_alias \<Rightarrow> (root1, existing_alias)
                 | None \<Rightarrow>
                     (update_at aliases
                        (append_child (Element ''alias'' [(''uuid'', new_uuid)] [] [] [])) root1,
                      aliases @ [length (children (subtree root1 aliases))])) of
             (root2, alias_elem) \<Rightarrow>
               update_at alias_elem
                 (set_children (alias_properties alias_name enabled_devices timestamp)) root2))"

text \<open>
  What the edit does to the \<^verbatim>\<open>aliases\<close> section when the lookup searches that
  section: the first alias with the name gets the properties as its children,
  and when there is none, a new alias with the uuid and the properties is
  appended.
\<close>

definition write_alias :: "string \<Rightarrow> device list \<Rightarrow> string \<Rightarrow> string \<Rightarrow> xml \<Rightarrow> xml" where
  "write_alias alias_name enabled_devices new_uuid timestamp aliases =
     (case find_index (alias_named alias_name) (children aliases) of
        Some j \<Rightarrow>
          update_at [j] (set_children (alias_properties alias_name enabled_devices timestamp)) aliases
      | None \<Rightarrow>
          append_child
            (Element ''alias'' [(''uuid'', new_uuid)] [] []
               (alias_properties alias_name enabled_devices timestamp)) aliases)"

text \<open>The alias element that \<open>find_alias_by_name\<close> finds, as a tree.\<close>

definition alias_subtree :: "xml \<Rightarrow> string \<Rightarrow> xml option" where
  "alias_subtree root alias_name = map_option (subtree root) (find_alias_by_name root alias_name)"

text \<open>
  The lookup of \<open>find_alias_by_name\<close> and the section in which a missing alias
  is created agree on a document: after the sections are found or created, the
  first \<^verbatim>\<open>OPNsense/Firewall/Alias/aliases\<close> section in document order is the one
  reached from the root by the first child with each of these tags.
\<close>

definition one_alias_section :: "xml \<Rightarrow> bool" where
  "one_alias_section root =
     (case ensure_sections root of
        (root1, aliases) \<Rightarrow> iter_find ''OPNsense'' aliases_path root1 = Some aliases)"

text \<open>
  Each \<^verbatim>\<open>return False\<close> of the firewall operations is a value of this type,
  named after the message printed before it.
\<close>

datatype sync_error =
    NoEnabledDevices
  | BackupFailed
  | FetchFailed
  | MalformedDocument
  | NoFilterSection
  | RuleNotFound
  | ApplyFailed

text \<open>What the environment supplies to one pass: two clock readings and a fresh uuid.\<close>

record sync_env =
  backup_stamp :: string
  descr_stamp :: string
  fresh_uuid :: string

definition create_or_update_mac_alias ::
  "(nat \<Rightarrow> bool) \<Rightarrow> sync_env \<Rightarrow> io \<Rightarrow> fs \<Rightarrow> string \<Rightarrow> remote \<Rightarrow> (sync_error + unit) \<times> remote" where
  "create_or_update_mac_alias ok env e f alias_name r0 =
     (let enabled_devices = get_enabled_devices e f in
      if enabled_devices = [] then (Inl NoEnabledDevices, r0)
      else
        (case backup_config ok (backup_stamp env) r0 of
           (False, r1) \<Rightarrow> (Inl BackupFailed, r1)
         | (True, r1) \<Rightarrow>
             (case get_config_xml ok r1 of
                (None, r2) \<Rightarrow> (Inl FetchFailed, r2)
              | (Some config_xml, r2) \<Rightarrow>
                  if config_xml = Blank then (Inl FetchFailed, r2)
                  else
                    (case fromstring config_xml of
                       None \<Rightarrow> (Inl MalformedDocument, r2)
                     | Some root \<Rightarrow>
                         (case apply_config_xml ok
                                 (tostring (alias_upsert alias_name enabled_devices
                                    (fresh_uuid env) (descr_stamp env) root)) r2 of
                            (True, r3) \<Rightarrow> (Inr (), r3)
                          | (False, r3) \<Rightarrow> (Inl ApplyFailed, r3))))))"

subsection \<open>\<^verbatim>\<open>toggle_parental_controls\<close> and \<^verbatim>\<open>get_parental_control_status\<close>\<close>

definition rule_marker :: string where
  "rule_marker = ''ParentalControlBlock''"

text \<open>\<^verbatim>\<open>descr is not None and descr.text and "ParentalControlBlock" in descr.text\<close>\<close>

definition rule_matches :: "xml \<Rightarrow> bool" where
  "rule_matches rule =
     (case find_child ''descr'' rule of
        None \<Rightarrow> False
      | Some j \<Rightarrow> text_of (children rule ! j) \<noteq> [] \<and> contains rule_marker (text_of (children rule ! j)))"

text \<open>The loop over \<^verbatim>\<open>filter_section.findall("rule")\<close> up to its \<^verbatim>\<open>break\<close>.\<close>

definition find_rule :: "xml \<Rightarrow> nat option" where
  "find_rule filter_section =
     find_index (\<lambda>c. tag c = ''rule'' \<and> rule_matches c) (children filter_section)"

definition set_disabled :: "bool \<Rightarrow> xml \<Rightarrow> xml" where
  "set_disabled enable rule =
     (case find_child ''disabled'' rule of
        Some k \<Rightarrow> update_at [k] (set_text (if enable then ''0'' else ''1'')) rule
      | None \<Rightarrow> append_child (leaf ''disabled'' (if enable then ''0'' else ''1'')) rule)"

definition toggle_rule :: "bool \<Rightarrow> xml \<Rightarrow> sync_error + xml" where
  "toggle_rule enable root =
     (case find_child ''filter'' root of
        None \<Rightarrow> Inl NoFilterSection
      | Some filter_section \<Rightarrow>
          (case find_rule (children root ! filter_section) of
             None \<Rightarrow> Inl RuleNotFound
           | Some rule \<Rightarrow> Inr (update_at [filter_section, rule] (set_disabled enable) root)))"

definition toggle_parental_controls ::
  "(nat \<Rightarrow> bool) \<Rightarrow> bool \<Rightarrow> remote \<Rightarrow> (sync_error + unit) \<times> remote" where
  "toggle_parental_controls ok enable r0 =
     (case get_config_xml ok r0 of
        (None, r1) \<Rightarrow> (Inl FetchFailed, r1)
      | (Some config_xml, r1) \<Rightarrow>
          if config_xml = Blank then (Inl FetchFailed, r1)
          else
            (case fromstring config_xml of
               None \<Rightarrow> (Inl MalformedDocument, r1)
             | Some root \<Rightarrow>
                 (case toggle_rule enable root of
                    Inl err \<Rightarrow> (Inl err, r1)
                  | Inr root' \<Rightarrow>
                      (case apply_config_xml ok (tostring root') r1 of
                         (True, r2) \<Rightarrow> (Inr (), r2)
                       | (False, r2) \<Rightarrow> (Inl ApplyFailed, r2)))))"

text \<open>The status dictionary (without \<^verbatim>\<open>last_checked\<close>, the time of the call).\<close>

record status =
  alias_exists :: bool
  rule_exists :: bool
  rule_enabled :: bool
  device_count :: nat
  controls_active :: bool

text \<open>The two flags that the loop over the rules computes: \<open>(rule_exists, rule_enabled)\<close>.\<close>

definition rule_flags :: "xml \<Rightarrow> bool \<times> bool" where
  "rule_flags root =
     (case find_child ''filter'' root of
        None \<Rightarrow> (False, False)
      | Some filter_section \<Rightarrow>
          (case find_rule (children root ! filter_section) of
             None \<Rightarrow> (False, False)
           | Some i \<Rightarrow>
               (let rule = children (children root ! filter_section) ! i in
                (True,
                 (case find_child ''disabled'' rule of
                    None \<Rightarrow> True
                  | Some k \<Rightarrow> text_of (children rule ! k) \<noteq> ''1'')))))"

text \<open>The two \<^verbatim>\<open>{"error": ...}\<close> results are \<open>Inl\<close>.\<close>

datatype status_error = ConfigUnavailable | StatusFailed

definition get_parental_control_status ::
  "(nat \<Rightarrow> bool) \<Rightarrow> io \<Rightarrow> fs \<Rightarrow> remote \<Rightarrow> (status_error + status) \<times> remote" where
  "get_parental_control_status ok e f r0 =
     (case get_config_xml ok r0 of
        (None, r1) \<Rightarrow> (Inl ConfigUnavailable, r1)
      | (Some config_xml, r1) \<Rightarrow>
          if config_xml = Blank then (Inl ConfigUnavailable, r1)
          else
            (case fromstring config_xml of
               None \<Rightarrow> (Inl StatusFailed, r1)
             | Some root \<Rightarrow>
                 (let found = (find_alias_by_name root ''ParentalControlMACs'' \<noteq> None);
                      flags = rule_flags root;
                      enabled_devices = get_enabled_devices e f
                  in (Inr \<lparr>alias_exists = found, rule_exists = fst flags,
                            rule_enabled = snd flags,
                            device_count = length enabled_devices,
                            controls_active = (found \<and> fst flags \<and> snd flags)\<rparr>, r1))))"

section \<open>Sample data\<close>

text \<open>An environment in which no file operation fails.\<close>

definition healthy :: io where
  "healthy = \<lparr>load_read_fails = False, backup_read_fails = False, backup_write_fails = False,
               store_write_fails = False, now = ''20240101_000000''\<rparr>"

text \<open>The same with a backup directory that cannot be written.\<close>

definition backup_broken :: io where
  "backup_broken = healthy\<lparr>backup_write_fails := True\<rparr>"

definition kids_tablet :: device where
  "kids_tablet = \<lparr>dev_id = 1, dev_name = ''Kids Tablet'', mac = ''AA:BB:CC:DD:EE:01'',
                   original_mac = ''AA:BB:CC:DD:EE:01'', enabled = True, line_number = 1\<rparr>"

definition game_console :: device where
  "game_console = \<lparr>dev_id = 2, dev_name = ''Game Console'', mac = ''AA:BB:CC:DD:EE:02'',
                    original_mac = ''aa-bb-cc-dd-ee-02'', enabled = True, line_number = 2\<rparr>"

text \<open>A store file with one device, and one with two.\<close>

definition one_device :: fs where
  "one_device = \<lparr>store = Some (store_text [kids_tablet]), backups = []\<rparr>"

definition two_devices :: fs where
  "two_devices = \<lparr>store = Some (store_text [kids_tablet, game_console]), backups = []\<rparr>"

text \<open>A remote host with an unreadable configuration and no action issued yet.\<close>

definition fresh_remote :: remote where
  "fresh_remote = \<lparr>conf = Garbage, tmp = None, conf_backups = [], cmd_log = []\<rparr>"

text \<open>An empty store file, as the constructor of the manager creates it.\<close>

definition empty_store :: fs where
  "empty_store = \<lparr>store = Some [], backups = []\<rparr>"

text \<open>
  Three devices are added, the first two are deleted, and a fourth is added
  whose name holds a line break and a tab: \<^verbatim>\<open>"q\nc\t000000000003"\<close>.
\<close>

definition line_break_name :: "operation list" where
  "line_break_name =
     [Add ''a'' ''00:00:00:00:00:01'',
      Add ''b'' ''00:00:00:00:00:02'',
      Add ''c'' ''00:00:00:00:00:03'',
      Delete 1,
      Delete 2,
      Add (''q'' @ [NL] @ ''c'' @ [TAB] @ ''000000000003'') ''00:00:00:00:00:04'']"

text \<open>
  Two devices are added; the name of the second has 51 valid characters, of
  which the fiftieth is a space: \<^verbatim>\<open>"a" * 49 + " b"\<close>.
\<close>

definition long_name :: "operation list" where
  "long_name =
     [Add (replicate 49 CHR ''a'') ''00:00:00:00:00:01'',
      Add (replicate 49 CHR ''a'' @ '' b'') ''00:00:00:00:00:02'']"

text \<open>
  A configuration with the alias section, the alias and the block rule, the
  rule disabled; and a remote host that holds it.
\<close>

definition sample_config :: xml where
  "sample_config =
     Element ''opnsense'' [] [] [] [
       leaf ''version'' ''24.1'',
       Element ''filter'' [] [] [] [
         Element ''rule'' [] [] [] [
           leaf ''type'' ''pass'',
           leaf ''descr'' ''Default allow LAN to any rule''],
         Element ''rule'' [(''uuid'', ''5b1f'')] [] [] [
           leaf ''type'' ''block'',
           leaf ''interface'' ''lan'',
           leaf ''disabled'' ''1'',
           Element ''source'' [] [] [] [leaf ''address'' ''ParentalControlMACs''],
           Element ''destination'' [] [] [] [leaf ''any'' ''1''],
           leaf ''descr'' ''ParentalControlBlock - Block devices in ParentalControlMACs alias'']],
       Element ''OPNsense'' [] [] [] [
         Element ''Firewall'' [] [] [] [
           Element ''Alias'' [] [] [] [
             leaf ''version'' ''1.0.1'',
             Element ''aliases'' [] [] [] [
               Element ''alias'' [(''uuid'', ''77aa'')] [] [] [
                 leaf ''enabled'' ''1'',
                 leaf ''name'' ''ParentalControlMACs'',
                 leaf ''type'' ''mac'',
                 leaf ''content'' ''AA:BB:CC:DD:EE:01'']]]]]]"

definition sample_remote :: remote where
  "sample_remote = \<lparr>conf = Markup sample_config, tmp = None, conf_backups = [], cmd_log = []\<rparr>"

text \<open>A store file in which two lines carry the id 3.\<close>

definition shared_id :: fs where
  "shared_id =
     \<lparr>store = Some (''3|a'' @ [TAB] @ ''00:00:00:00:00:01'' @ [TAB, NL]
                    @ ''3|b'' @ [TAB] @ ''00:00:00:00:00:02'' @ [TAB, NL]),
      backups = []\<rparr>"

text \<open>
  A document with an \<^verbatim>\<open>OPNsense/Firewall/Alias/aliases\<close> section that is not
  below the root directly.
\<close>

definition nested_config :: xml where
  "nested_config =
     Element ''opnsense'' [] [] [] [
       Element ''staging'' [] [] [] [
         Element ''OPNsense'' [] [] [] [
           Element ''Firewall'' [] [] [] [
             Element ''Alias'' [] [] [] [
               Element ''aliases'' [] [] [] []]]]]]"

section \<open>Properties of \<^verbatim>\<open>normalize_mac\<close>\<close>

lemma upper_char_cases:
  "c \<in> set ''abcdefghijklmnopqrstuvwxyz'' \<or> upper_char c = c"
  by (simp add: upper_char_def)

lemma is_hex_upper_char: "is_hex (upper_char c) = is_hex c"
proof -
  consider "c \<in> set ''abcdefghijklmnopqrstuvwxyz''" | "upper_char c = c"
    using upper_char_cases by blast
  then show ?thesis
  proof cases
    case 1
    then have "c = CHR ''a'' \<or> c = CHR ''b'' \<or> c = CHR ''c'' \<or> c = CHR ''d'' \<or> c = CHR ''e'' \<or> c = CHR ''f''
      \<or> (\<not> is_hex c \<and> \<not> is_hex (upper_char c))"
      by (simp add: upper_char_def is_hex_def) (elim disjE; simp)
    then show ?thesis
      by (elim disjE; simp add: upper_char_def is_hex_def)
  next
    case 2
    then show ?thesis by simp
  qed
qed

lemma is_upper_hex_upper_char: "is_hex c \<Longrightarrow> is_upper_hex (upper_char c)"
  by (simp add: is_hex_def) (elim disjE; simp add: upper_char_def is_upper_hex_def)

lemma filter_hex_upper: "filter is_hex (upper s) = upper (filter is_hex s)"
  by (induction s) (simp_all add: upper_def is_hex_upper_char)

lemma upper_hex_filter: "list_all is_upper_hex (upper (filter is_hex s))"
  by (induction s) (simp_all add: upper_def is_upper_hex_upper_char)

lemma length_upper: "length (upper s) = length s"
  by (simp add: upper_def)

lemma normalize_mac_eq:
  "normalize_mac raw =
     (if length (filter is_hex raw) \<noteq> 12 then Inl InvalidMacLength
      else Inr (join '':'' (octets (upper (filter is_hex raw)))))"
  by (simp add: normalize_mac_def Let_def upper_hex_filter filter_hex_upper length_upper)















section \<open>Properties of the apply stage\<close>

lemma ssh_command_reload:
  "ssh_command ok restart_configd_cmd r =
     ((ok (length (cmd_log r)), Blank), r\<lparr>cmd_log := cmd_log r @ [Ssh restart_configd_cmd]\<rparr>)"
  "ssh_command ok filter_reload_cmd r =
     ((ok (length (cmd_log r)), Blank), r\<lparr>cmd_log := cmd_log r @ [Ssh filter_reload_cmd]\<rparr>)"
  "ssh_command ok configure_firewall_cmd r =
     ((ok (length (cmd_log r)), Blank), r\<lparr>cmd_log := cmd_log r @ [Ssh configure_firewall_cmd]\<rparr>)"
  "ssh_command ok filter_configure_cmd r =
     ((ok (length (cmd_log r)), Blank), r\<lparr>cmd_log := cmd_log r @ [Ssh filter_configure_cmd]\<rparr>)"
  by (simp_all add: ssh_command_def Let_def restart_configd_cmd_def filter_reload_cmd_def
      configure_firewall_cmd_def filter_configure_cmd_def cat_cmd_def mv_cmd_def cp_prefix_def)

lemma ssh_command_mv:
  "ssh_command ok mv_cmd r =
     (case tmp r of
        Some d \<Rightarrow>
          if ok (length (cmd_log r))
          then ((True, Blank), r\<lparr>cmd_log := cmd_log r @ [Ssh mv_cmd], conf := d, tmp := None\<rparr>)
          else ((False, Blank), r\<lparr>cmd_log := cmd_log r @ [Ssh mv_cmd]\<rparr>)
      | None \<Rightarrow> ((False, Blank), r\<lparr>cmd_log := cmd_log r @ [Ssh mv_cmd]\<rparr>))"
  by (simp add: ssh_command_def Let_def cat_cmd_def mv_cmd_def split: option.splits)

lemma apply_config_xml_pushed:
  assumes "ok (length (cmd_log r0))" "ok (Suc (length (cmd_log r0)))"
  shows "apply_config_xml ok d r0 =
     (ok (length (cmd_log r0) + 4) \<or> ok (length (cmd_log r0) + 5),
      r0\<lparr>cmd_log := cmd_log r0 @ [Scp d, Ssh mv_cmd, Ssh restart_configd_cmd, Ssh filter_reload_cmd,
              Ssh configure_firewall_cmd]
              @ (if ok (length (cmd_log r0) + 4) then [] else [Ssh filter_configure_cmd]),
          conf := d, tmp := None\<rparr>)"
proof (cases "ok (length (cmd_log r0) + 4)")
  case True
  with assms show ?thesis
    by (simp add: apply_config_xml_def scp_def Let_def ssh_command_mv ssh_command_reload
        eval_nat_numeral split: bool.splits)
next
  case False
  with assms show ?thesis
    by (simp add: apply_config_xml_def scp_def Let_def ssh_command_mv ssh_command_reload
        eval_nat_numeral split: bool.splits)
qed


text \<open>
  C1. Once the document is pushed (the copy is action \<open>n\<close> and the move is action
  \<open>n + 1\<close> of the transport, and both succeed), the actions that follow are
  (a) the restart of the configuration daemon, (b) the filter reload, (c) the
  firewall-reconfigure script and, only when (c) failed, (d) the alternate
  script. The outcomes of (a) and (b), actions \<open>n + 2\<close> and \<open>n + 3\<close>, do not
  matter; the stage fails exactly when (c) and (d), actions \<open>n + 4\<close> and
  \<open>n + 5\<close>, both fail.
\<close>

theorem apply_config_xml_fallback:
  "ok (length (cmd_log r0)) \<and> ok (length (cmd_log r0) + 1) \<longrightarrow>
     cmd_log (snd (apply_config_xml ok d r0)) =
       cmd_log r0 @ [Scp d, Ssh mv_cmd]
         @ [Ssh restart_configd_cmd, Ssh filter_reload_cmd, Ssh configure_firewall_cmd]
         @ (if ok (length (cmd_log r0) + 4) then [] else [Ssh filter_configure_cmd])
     \<and> (\<not> fst (apply_config_xml ok d r0) \<longleftrightarrow>
          \<not> ok (length (cmd_log r0) + 4) \<and> \<not> ok (length (cmd_log r0) + 5))"
  by (simp add: apply_config_xml_pushed)

theorem apply_config_xml_fallback_witness:
  "apply_config_xml (\<lambda>k. k \<notin> {2, 3, 4}) Blank fresh_remote =
     (True, \<lparr>conf = Blank, tmp = None, conf_backups = [],
             cmd_log = [Scp Blank, Ssh mv_cmd, Ssh restart_configd_cmd, Ssh filter_reload_cmd,
                        Ssh configure_firewall_cmd, Ssh filter_configure_cmd]\<rparr>)"
  using apply_config_xml_fallback [of "\<lambda>k. k \<notin> {2, 3, 4}" fresh_remote Blank]
  by (simp add: apply_config_xml_pushed fresh_remote_def)

section \<open>Properties of the alias synchronisation\<close>

text \<open>
  C6. With no enabled device in the registry the pass ends with the
  no-enabled-devices outcome and the remote host is as it was: no action was
  issued, so nothing was fetched, backed up, changed or pushed.
\<close>

theorem empty_registry_no_remote_operation:
  "get_enabled_devices e f = [] \<Longrightarrow>
   create_or_update_mac_alias ok env e f alias_name r0 = (Inl NoEnabledDevices, r0)"
  by (simp add: create_or_update_mac_alias_def)

theorem empty_registry_no_remote_operation_witness:
  "get_enabled_devices healthy \<lparr>store = Some [], backups = []\<rparr> = []
   \<and> create_or_update_mac_alias (\<lambda>k. True)
        \<lparr>backup_stamp = ''20240101_000000'', descr_stamp = ''2024-01-01 00:00:00'',
         fresh_uuid = ''u1''\<rparr>
        healthy \<lparr>store = Some [], backups = []\<rparr> ''ParentalControlMACs'' fresh_remote
       = (Inl NoEnabledDevices, fresh_remote)"
proof -
  have h: "get_enabled_devices healthy \<lparr>store = Some [], backups = []\<rparr> = []"
    by (simp add: get_enabled_devices_def load_mac_addresses_def healthy_def strip_def
        rstrip_def lstrip_def)
  from empty_registry_no_remote_operation [OF h] h show ?thesis
    by simp
qed

section \<open>Properties of the registry\<close>

lemma save_backup_fails:
  "store f \<noteq> None \<Longrightarrow> backup_read_fails e \<or> backup_write_fails e \<Longrightarrow>
   save_mac_addresses e f devices = (False, f)"
  by (auto simp: save_mac_addresses_def)

lemma save_succeeds:
  "\<not> backup_read_fails e \<Longrightarrow> \<not> backup_write_fails e \<Longrightarrow> \<not> store_write_fails e \<Longrightarrow>
   save_mac_addresses e f devices =
     (True, \<lparr>store = Some (store_text devices),
             backups = (case store f of None \<Rightarrow> backups f
                        | Some t \<Rightarrow> (backup_name (now e), read_text t) # backups f)\<rparr>)"
  by (simp add: save_mac_addresses_def split: option.splits)

text \<open>
  C2, as the code has it. When the store file exists and the backup copy fails,
  the save ends there: it returns \<open>False\<close> and the files are as they were. The
  new list is written, and \<open>True\<close> returned, when there was nothing to back up
  or the backup went through, and the write itself succeeds.
\<close>

theorem save_needs_backup:
  "(store f \<noteq> None \<and> (backup_read_fails e \<or> backup_write_fails e) \<longrightarrow>
      save_mac_addresses e f devices = (False, f))
   \<and> ((store f = None \<or> (\<not> backup_read_fails e \<and> \<not> backup_write_fails e))
        \<and> \<not> store_write_fails e \<longrightarrow>
      fst (save_mac_addresses e f devices)
      \<and> store (snd (save_mac_addresses e f devices)) = Some (store_text devices))"
  by (auto simp: save_mac_addresses_def split: option.splits)

theorem save_needs_backup_witness:
  "save_mac_addresses backup_broken one_device [kids_tablet, game_console] = (False, one_device)
   \<and> fst (save_mac_addresses healthy one_device [kids_tablet, game_console])
   \<and> store (snd (save_mac_addresses healthy one_device [kids_tablet, game_console]))
       = Some (store_text [kids_tablet, game_console])"
  using save_needs_backup [of one_device backup_broken "[kids_tablet, game_console]"]
    save_needs_backup [of one_device healthy "[kids_tablet, game_console]"]
  by (simp add: backup_broken_def healthy_def one_device_def)

text \<open>
  C2, as the claim states it, fails: with a backup directory that cannot be
  written, the new list is not written and the save does not report success.
\<close>

theorem save_backup_failure_counterexample:
  "\<not> (fst (save_mac_addresses backup_broken one_device [kids_tablet, game_console])
      \<and> store (snd (save_mac_addresses backup_broken one_device [kids_tablet, game_console]))
          = Some (store_text [kids_tablet, game_console]))"
  by (simp add: save_mac_addresses_def backup_broken_def healthy_def one_device_def)

lemma find_duplicate_None:
  "find_duplicate devices m n = None \<longleftrightarrow>
     (\<forall>d \<in> set devices. mac d \<noteq> m \<and> lower (dev_name d) \<noteq> lower n)"
  by (induction devices) auto

lemma find_duplicate_Some:
  "find_duplicate devices m n = Some err \<Longrightarrow> err = DuplicateMac \<or> err = DuplicateName"
  by (induction devices) (auto split: if_splits)

lemma add_device_duplicate:
  assumes "validate_device_name name = Inr n" "normalize_mac raw_mac = Inr m"
    and "\<exists>d \<in> set (load_mac_addresses e f). mac d = m \<or> lower (dev_name d) = lower n"
  shows "add_device e f name raw_mac = (Inl DuplicateMac, f)
       \<or> add_device e f name raw_mac = (Inl DuplicateName, f)"
proof -
  from assms(3) have "find_duplicate (load_mac_addresses e f) m n \<noteq> None"
    by (auto simp: find_duplicate_None)
  then obtain err where err: "find_duplicate (load_mac_addresses e f) m n = Some err"
    by blast
  from find_duplicate_Some [OF err] err assms(1,2) show ?thesis
    by (auto simp: add_device_def)
qed

lemma add_device_invalid:
  "validate_device_name name = Inl err \<Longrightarrow> add_device e f name raw_mac = (Inl err, f)"
  "validate_device_name name = Inr n \<Longrightarrow> normalize_mac raw_mac = Inl err \<Longrightarrow>
     add_device e f name raw_mac = (Inl err, f)"
  by (simp_all add: add_device_def)

text \<open>
  C3. When the normalized MAC equals the MAC of a loaded device, or the cleaned
  name equals the name of a loaded device up to case, \<open>add_device\<close> raises and
  the files are as they were; when both inputs are valid the error is one of the
  two duplicate errors.
\<close>

theorem add_device_rejects_duplicates:
  "((normalize_mac raw_mac = Inr m \<and> (\<exists>d \<in> set (load_mac_addresses e f). mac d = m))
    \<or> (validate_device_name name = Inr n
        \<and> (\<exists>d \<in> set (load_mac_addresses e f). lower (dev_name d) = lower n))
    \<longrightarrow> (\<exists>err. add_device e f name raw_mac = (Inl err, f)))
   \<and> (normalize_mac raw_mac = Inr m \<and> validate_device_name name = Inr n
       \<and> (\<exists>d \<in> set (load_mac_addresses e f). mac d = m \<or> lower (dev_name d) = lower n)
    \<longrightarrow> add_device e f name raw_mac = (Inl DuplicateMac, f)
        \<or> add_device e f name raw_mac = (Inl DuplicateName, f))"
proof (intro conjI impI)
  assume h: "normalize_mac raw_mac = Inr m \<and> validate_device_name name = Inr n
       \<and> (\<exists>d \<in> set (load_mac_addresses e f). mac d = m \<or> lower (dev_name d) = lower n)"
  then show "add_device e f name raw_mac = (Inl DuplicateMac, f)
        \<or> add_device e f name raw_mac = (Inl DuplicateName, f)"
    using add_device_duplicate by blast
next
  assume h: "(normalize_mac raw_mac = Inr m \<and> (\<exists>d \<in> set (load_mac_addresses e f). mac d = m))
    \<or> (validate_device_name name = Inr n
        \<and> (\<exists>d \<in> set (load_mac_addresses e f). lower (dev_name d) = lower n))"
  show "\<exists>err. add_device e f name raw_mac = (Inl err, f)"
  proof (cases "validate_device_name name")
    case (Inl err)
    then show ?thesis by (simp add: add_device_invalid)
  next
    case (Inr n')
    note name_ok = this
    show ?thesis
    proof (cases "normalize_mac raw_mac")
      case (Inl err)
      with name_ok show ?thesis by (simp add: add_device_invalid)
    next
      case (Inr m')
      with name_ok h have "\<exists>d \<in> set (load_mac_addresses e f). mac d = m' \<or> lower (dev_name d) = lower n'"
        by auto
      from add_device_duplicate [OF name_ok Inr this] show ?thesis by blast
    qed
  qed
qed

theorem add_device_rejects_duplicates_witness:
  "normalize_mac ''aa-bb-cc-dd-ee-02'' = Inr ''AA:BB:CC:DD:EE:02''
   \<and> validate_device_name ''kids tablet'' = Inr ''kids tablet''
   \<and> (\<exists>d \<in> set (load_mac_addresses healthy one_device).
         mac d = ''AA:BB:CC:DD:EE:02'' \<or> lower (dev_name d) = lower ''kids tablet'')
   \<and> (\<exists>err. add_device healthy one_device ''kids tablet'' ''aa-bb-cc-dd-ee-02''
               = (Inl err, one_device))
   \<and> (add_device healthy one_device ''kids tablet'' ''aa-bb-cc-dd-ee-02''
         = (Inl DuplicateMac, one_device)
       \<or> add_device healthy one_device ''kids tablet'' ''aa-bb-cc-dd-ee-02''
         = (Inl DuplicateName, one_device))"
proof -
  have h: "normalize_mac ''aa-bb-cc-dd-ee-02'' = Inr ''AA:BB:CC:DD:EE:02''
   \<and> validate_device_name ''kids tablet'' = Inr ''kids tablet''
   \<and> (\<exists>d \<in> set (load_mac_addresses healthy one_device).
         mac d = ''AA:BB:CC:DD:EE:02'' \<or> lower (dev_name d) = lower ''kids tablet'')"
    by code_simp
  from add_device_rejects_duplicates [of "''aa-bb-cc-dd-ee-02''" "''AA:BB:CC:DD:EE:02''" healthy
      one_device "''kids tablet''" "''kids tablet''"] h
  show ?thesis by blast
qed


lemma find_find_index:
  "find P xs = Some x \<Longrightarrow> \<exists>k. find_index P xs = Some k \<and> xs ! k = x"
  by (induction xs) (auto split: if_splits)





section \<open>Uniqueness of ids, MACs and names\<close>

lemma max_id_ge: "d \<in> set devices \<Longrightarrow> dev_id d \<le> max_id devices"
  by (auto simp: max_id_def)

text \<open>
  The id that \<open>add_device\<close> gives to the new device is one more than the
  largest loaded id, so no loaded device holds it.
\<close>

lemma add_device_assigns_next_id:
  assumes "add_device e f name raw_mac = (Inr d, f')"
  shows "dev_id d = max_id (load_mac_addresses e f) + 1"
    and "\<forall>x \<in> set (load_mac_addresses e f). dev_id x \<noteq> dev_id d"
proof -
  from assms show id: "dev_id d = max_id (load_mac_addresses e f) + 1"
    by (auto simp: add_device_def Let_def split: sum.splits option.splits prod.splits bool.splits)
  show "\<forall>x \<in> set (load_mac_addresses e f). dev_id x \<noteq> dev_id d"
    using max_id_ge id by fastforce
qed

text \<open>
  C5. After operations issued on an empty store, no two devices read back
  should share an id, a MAC or a name. The code does not keep this:
  \<open>validate_device_name\<close> accepts every character of the class \<^verbatim>\<open>\s\<close>, so a
  cleaned name may hold a line break and a tab, the separators of the store
  file. After the operations of \<open>line_break_name\<close>, all of which succeed, the
  store is read back as two devices with the same id, MAC and name.
\<close>

theorem line_break_name_breaks_uniqueness:
  "load_mac_addresses healthy (run_operations healthy empty_store line_break_name) =
     [\<lparr>dev_id = 3, dev_name = ''c'', mac = ''00:00:00:00:00:03'',
       original_mac = ''00:00:00:00:00:03'', enabled = True, line_number = 1\<rparr>,
      \<lparr>dev_id = 3, dev_name = ''c'', mac = ''00:00:00:00:00:03'',
       original_mac = ''000000000003'', enabled = True, line_number = 3\<rparr>]
   \<and> \<not> unique_ids (load_mac_addresses healthy (run_operations healthy empty_store line_break_name))
   \<and> \<not> unique_macs (load_mac_addresses healthy (run_operations healthy empty_store line_break_name))
   \<and> \<not> unique_names (load_mac_addresses healthy (run_operations healthy empty_store line_break_name))"
proof -
  have l: "load_mac_addresses healthy (run_operations healthy empty_store line_break_name) =
     [\<lparr>dev_id = 3, dev_name = ''c'', mac = ''00:00:00:00:00:03'',
       original_mac = ''00:00:00:00:00:03'', enabled = True, line_number = 1\<rparr>,
      \<lparr>dev_id = 3, dev_name = ''c'', mac = ''00:00:00:00:00:03'',
       original_mac = ''000000000003'', enabled = True, line_number = 3\<rparr>]"
    by code_simp
  show ?thesis
    unfolding l by (simp add: unique_ids_def unique_macs_def unique_names_def)
qed

text \<open>
  A second way, without control characters: the name is cut to fifty
  characters after it was stripped, so it may end in a space that the next load
  strips, and the loaded name then equals an existing one.
\<close>

lemma long_name_breaks_name_uniqueness:
  "map dev_name (load_mac_addresses healthy (run_operations healthy empty_store long_name)) =
     [replicate 49 CHR ''a'', replicate 49 CHR ''a'']"
  by code_simp

section \<open>Lists and elements\<close>

lemma find_index_iff:
  "find_index P xs = Some k \<longleftrightarrow> k < length xs \<and> P (xs ! k) \<and> (\<forall>j < k. \<not> P (xs ! j))"
proof (induction xs arbitrary: k)
  case Nil
  then show ?case by simp
next
  case (Cons x xs)
  show ?case
  proof (cases "P x")
    case True
    then show ?thesis by (cases k) auto
  next
    case False
    show ?thesis
    proof (cases k)
      case 0
      with False show ?thesis by simp
    next
      case (Suc k')
      with False Cons.IH [of k'] show ?thesis
        by (auto simp: less_Suc_eq_0_disj)
    qed
  qed
qed

lemma find_index_None: "find_index P xs = None \<longleftrightarrow> (\<forall>x \<in> set xs. \<not> P x)"
  by (induction xs) auto

lemma find_index_append_new:
  "find_index P xs = None \<Longrightarrow> P y \<Longrightarrow> find_index P (xs @ [y]) = Some (length xs)"
  by (induction xs) auto

lemma find_index_append_old:
  "find_index P xs = Some k \<Longrightarrow> find_index P (xs @ ys) = Some k"
  by (induction xs arbitrary: k) (auto split: if_splits)

text \<open>Replacing the found element by one that still satisfies \<open>P\<close> keeps the position.\<close>

lemma find_index_update_same:
  "find_index P xs = Some k \<Longrightarrow> P y \<Longrightarrow> find_index P (xs[k := y]) = Some k"
  by (simp add: find_index_iff)

text \<open>Replacing an element by one on which \<open>P\<close> has the same value changes no position.\<close>

lemma find_index_update_cong:
  "k < length xs \<Longrightarrow> P y = P (xs ! k) \<Longrightarrow> find_index P (xs[k := y]) = find_index P xs"
proof (induction xs arbitrary: k)
  case Nil
  then show ?case by simp
next
  case (Cons x xs)
  then show ?case by (cases k) auto
qed

lemma tag_set_children [simp]: "tag (set_children cs e) = tag e"
  and children_set_children [simp]: "children (set_children cs e) = cs"
  and text_set_children [simp]: "text_of (set_children cs e) = text_of e"
  and attrib_set_children [simp]: "attrib (set_children cs e) = attrib e"
  by (simp_all add: set_children_def)

lemma tag_set_text [simp]: "tag (set_text s e) = tag e"
  and children_set_text [simp]: "children (set_text s e) = children e"
  and text_set_text [simp]: "text_of (set_text s e) = s"
  by (simp_all add: set_text_def)

lemma leaf_sel [simp]: "tag (leaf t s) = t" "text_of (leaf t s) = s" "children (leaf t s) = []"
  by (simp_all add: leaf_def)

lemma append_child_sel [simp]:
  "tag (append_child new e) = tag e" "children (append_child new e) = children e @ [new]"
  by (simp_all add: append_child_def)

lemma tag_set_disabled [simp]: "tag (set_disabled enable rule) = tag rule"
  by (simp add: set_disabled_def split: option.splits)

section \<open>Properties of the enforcement switch\<close>

lemma find_index_append_none:
  "find_index P xs = None \<Longrightarrow> \<not> P y \<Longrightarrow> find_index P (xs @ [y]) = None"
  by (induction xs) (auto split: if_splits)

lemma find_index_less: "find_index P xs = Some k \<Longrightarrow> k < length xs"
  by (simp add: find_index_iff)

lemma find_child_append_other:
  "tag new \<noteq> t \<Longrightarrow> find_child t (append_child new e) = find_child t e"
proof (cases "find_child t e")
  case None
  assume "tag new \<noteq> t"
  with None show ?thesis
    by (simp add: find_child_def find_index_append_none)
next
  case (Some k)
  then show ?thesis
    by (simp add: find_child_def find_index_append_old)
qed

lemma find_child_less: "find_child t e = Some k \<Longrightarrow> k < length (children e)"
  by (simp add: find_child_def find_index_iff)

lemma find_child_tag: "find_child t e = Some k \<Longrightarrow> tag (children e ! k) = t"
  by (simp add: find_child_def find_index_iff)

lemma rule_matches_append_other:
  assumes "tag new \<noteq> ''descr''"
  shows "rule_matches (append_child new rule) = rule_matches rule"
proof (cases "find_child ''descr'' rule")
  case None
  with assms show ?thesis
    by (simp add: rule_matches_def find_child_append_other)
next
  case (Some j)
  then have "j < length (children rule)"
    by (rule find_child_less)
  with Some assms show ?thesis
    by (simp add: rule_matches_def find_child_append_other nth_append)
qed

lemma find_child_update_other:
  assumes "k < length (children e)" "tag y = tag (children e ! k)"
  shows "find_child t (set_children ((children e)[k := y]) e) = find_child t e"
  using assms by (simp add: find_child_def find_index_update_cong)

lemma rule_matches_update_other:
  assumes "find_child ''disabled'' rule = Some k"
  shows "rule_matches (update_at [k] (set_text s) rule) = rule_matches rule"
proof -
  have k: "k < length (children rule)" "tag (children rule ! k) = ''disabled''"
    using assms by (simp_all add: find_child_less find_child_tag)
  have same: "find_child ''descr'' (update_at [k] (set_text s) rule) = find_child ''descr'' rule"
    using k by (simp add: find_child_update_other)
  show ?thesis
  proof (cases "find_child ''descr'' rule")
    case None
    with same show ?thesis by (simp add: rule_matches_def)
  next
    case (Some j)
    then have "tag (children rule ! j) = ''descr''"
      by (rule find_child_tag)
    with k have "j \<noteq> k" by auto
    with Some same show ?thesis
      by (simp add: rule_matches_def)
  qed
qed

lemma rule_matches_set_disabled [simp]:
  "rule_matches (set_disabled enable rule) = rule_matches rule"
proof (cases "find_child ''disabled'' rule")
  case None
  then show ?thesis
    by (simp add: set_disabled_def rule_matches_append_other)
next
  case (Some k)
  from rule_matches_update_other [OF Some] Some show ?thesis
    by (simp add: set_disabled_def)
qed

lemma disabled_after_set_disabled:
  "\<exists>k. find_child ''disabled'' (set_disabled enable rule) = Some k
      \<and> text_of (children (set_disabled enable rule) ! k) = (if enable then ''0'' else ''1'')"
proof (cases "find_child ''disabled'' rule")
  case None
  then show ?thesis
    by (simp add: set_disabled_def find_child_def find_index_append_new)
next
  case (Some k)
  then have k: "k < length (children rule)" "tag (children rule ! k) = ''disabled''"
    by (simp_all add: find_child_less find_child_tag)
  from Some have "find_index (\<lambda>c. tag c = ''disabled'')
       ((children rule)[k := set_text (if enable then ''0'' else ''1'') (children rule ! k)]) = Some k"
    unfolding find_child_def using k by (intro find_index_update_same) simp_all
  with Some k show ?thesis
    by (simp add: set_disabled_def find_child_def)
qed

lemma rule_flags_found:
  assumes "fst (rule_flags root)"
  obtains fi ri where "find_child ''filter'' root = Some fi"
    and "find_rule (children root ! fi) = Some ri"
  using assms by (auto simp: rule_flags_def split: option.splits)

lemma rule_flags_toggle_rule:
  assumes "fst (rule_flags root)"
  shows "\<exists>root'. toggle_rule enable root = Inr root' \<and> rule_flags root' = (True, enable)"
proof -
  from assms obtain fi ri where fi: "find_child ''filter'' root = Some fi"
    and ri: "find_rule (children root ! fi) = Some ri"
    by (rule rule_flags_found)
  define F where "F = children root ! fi"
  define R where "R = children F ! ri"
  define R' where "R' = set_disabled enable R"
  define F' where "F' = set_children ((children F)[ri := R']) F"
  define root' where "root' = set_children ((children root)[fi := F']) root"
  have fi_less: "fi < length (children root)" and fi_tag: "tag F = ''filter''"
    using fi by (simp_all add: find_child_less find_child_tag F_def)
  have ri_less: "ri < length (children F)"
    using ri by (simp add: find_rule_def find_index_iff F_def)
  have R_rule: "tag R = ''rule'' \<and> rule_matches R"
    using ri by (simp add: find_rule_def find_index_iff F_def R_def)
  have toggled: "toggle_rule enable root = Inr root'"
    using fi ri by (simp add: toggle_rule_def root'_def F'_def R'_def R_def F_def)
  have "find_child ''filter'' root' = Some fi"
    unfolding root'_def using fi fi_less by (simp add: find_child_update_other F'_def F_def)
  moreover have "children root' ! fi = F'"
    using fi_less by (simp add: root'_def)
  moreover have "find_rule F' = Some ri"
    unfolding find_rule_def F'_def children_set_children
    using ri R_rule by (intro find_index_update_same) (simp_all add: find_rule_def F_def R'_def)
  moreover have "children F' ! ri = R'"
    using ri_less by (simp add: F'_def)
  moreover from disabled_after_set_disabled [of enable R]
  obtain k where "find_child ''disabled'' R' = Some k"
    and "text_of (children R' ! k) = (if enable then ''0'' else ''1'')"
    unfolding R'_def by blast
  ultimately have "rule_flags root' = (True, enable)"
    by (simp add: rule_flags_def)
  with toggled show ?thesis by blast
qed

lemma get_config_xml_eq:
  "get_config_xml ok r =
     (if ok (length (cmd_log r)) then Some (conf r) else None,
      r\<lparr>cmd_log := cmd_log r @ [Ssh cat_cmd]\<rparr>)"
  by (simp add: get_config_xml_def ssh_command_def Let_def)

lemma conf_apply_config_xml_pushed:
  assumes "ok (length (cmd_log r0))" "ok (Suc (length (cmd_log r0)))"
  shows "conf (snd (apply_config_xml ok d r0)) = d"
  using assms by (simp add: apply_config_xml_pushed)

lemma toggle_parental_controls_pushed:
  assumes "conf r0 = Markup root" "toggle_rule enable root = Inr root'"
    and "ok (length (cmd_log r0))" "ok (length (cmd_log r0) + 1)" "ok (length (cmd_log r0) + 2)"
  shows "conf (snd (toggle_parental_controls ok enable r0)) = Markup root'"
    and "fst (toggle_parental_controls ok enable r0) = Inr ()
         \<longleftrightarrow> ok (length (cmd_log r0) + 5) \<or> ok (length (cmd_log r0) + 6)"
proof -
  define r1 where "r1 = r0\<lparr>cmd_log := cmd_log r0 @ [Ssh cat_cmd]\<rparr>"
  have fetch: "get_config_xml ok r0 = (Some (Markup root), r1)"
    using assms(1,3) by (simp add: get_config_xml_eq r1_def)
  have ok1: "ok (length (cmd_log r1))" "ok (Suc (length (cmd_log r1)))"
    using assms(4,5) by (simp_all add: r1_def)
  have app: "apply_config_xml ok (Markup root') r1 =
     (ok (length (cmd_log r1) + 4) \<or> ok (length (cmd_log r1) + 5),
      r1\<lparr>cmd_log := cmd_log r1 @ [Scp (Markup root'), Ssh mv_cmd, Ssh restart_configd_cmd,
              Ssh filter_reload_cmd, Ssh configure_firewall_cmd]
              @ (if ok (length (cmd_log r1) + 4) then [] else [Ssh filter_configure_cmd]),
          conf := Markup root', tmp := None\<rparr>)"
    using ok1 by (rule apply_config_xml_pushed)
  have len: "length (cmd_log r1) = length (cmd_log r0) + 1"
    by (simp add: r1_def)
  show "conf (snd (toggle_parental_controls ok enable r0)) = Markup root'"
    using assms(2) by (simp add: toggle_parental_controls_def fetch fromstring_def tostring_def app
        split: bool.splits)
  show "fst (toggle_parental_controls ok enable r0) = Inr ()
         \<longleftrightarrow> ok (length (cmd_log r0) + 5) \<or> ok (length (cmd_log r0) + 6)"
    using assms(2) by (simp add: toggle_parental_controls_def fetch fromstring_def tostring_def app
        len add.commute split: bool.splits)
qed

lemma status_of_document:
  assumes "conf r = Markup root" "ok (length (cmd_log r))"
  shows "\<exists>st r'. get_parental_control_status ok e f r = (Inr st, r')
           \<and> rule_exists st = fst (rule_flags root) \<and> rule_enabled st = snd (rule_flags root)"
  using assms by (simp add: get_parental_control_status_def get_config_xml_eq fromstring_def Let_def)

text \<open>
  C8. The host holds a document in which the status lookup finds the block
  rule. The three transport actions that replace the document (the fetch, the
  copy and the move, actions \<open>n\<close> to \<open>n + 2\<close>) and the fetch of the status call
  succeed; the reload commands may fail. Then the status after
  \<open>toggle_parental_controls enable\<close> reports the rule as existing and
  \<open>rule_enabled\<close> equal to \<open>enable\<close>, for \<open>enable\<close> false and true.
\<close>

theorem toggle_then_status:
  assumes "conf r0 = Markup root" "fst (rule_flags root)"
    and "ok (length (cmd_log r0))" "ok (length (cmd_log r0) + 1)" "ok (length (cmd_log r0) + 2)"
    and "ok (length (cmd_log (snd (toggle_parental_controls ok enable r0))))"
  shows "\<exists>st r2. get_parental_control_status ok e f (snd (toggle_parental_controls ok enable r0))
                   = (Inr st, r2)
           \<and> rule_exists st \<and> rule_enabled st = enable"
proof -
  from rule_flags_toggle_rule [OF assms(2)] obtain root'
    where t: "toggle_rule enable root = Inr root'" and fl: "rule_flags root' = (True, enable)"
    by blast
  have "conf (snd (toggle_parental_controls ok enable r0)) = Markup root'"
    using assms(1) t assms(3,4,5) by (rule toggle_parental_controls_pushed)
  with assms(6) have "\<exists>st r'. get_parental_control_status ok e f
        (snd (toggle_parental_controls ok enable r0)) = (Inr st, r')
      \<and> rule_exists st = fst (rule_flags root') \<and> rule_enabled st = snd (rule_flags root')"
    by (intro status_of_document)
  with fl show ?thesis
    by auto
qed

theorem toggle_then_status_witness:
  "conf sample_remote = Markup sample_config \<and> fst (rule_flags sample_config)
   \<and> (\<exists>st r2. get_parental_control_status (\<lambda>k. True) healthy one_device
                  (snd (toggle_parental_controls (\<lambda>k. True) False sample_remote)) = (Inr st, r2)
          \<and> rule_exists st \<and> rule_enabled st = False)
   \<and> (\<exists>st r2. get_parental_control_status (\<lambda>k. True) healthy one_device
                  (snd (toggle_parental_controls (\<lambda>k. True) True sample_remote)) = (Inr st, r2)
          \<and> rule_exists st \<and> rule_enabled st = True)"
proof -
  have c: "conf sample_remote = Markup sample_config"
    by (simp add: sample_remote_def)
  have r: "fst (rule_flags sample_config)"
    by code_simp
  from c r toggle_then_status [OF c r, of "\<lambda>k. True" False healthy one_device]
    toggle_then_status [OF c r, of "\<lambda>k. True" True healthy one_device]
  show ?thesis by simp
qed

section \<open>Writing the store and reading it back\<close>

subsection \<open>Stripping and splitting\<close>

lemma rstrip_snoc: "rstrip (xs @ [c]) = (if is_space c then rstrip xs else xs @ [c])"
  by (simp add: rstrip_def)

lemma rstrip_append:
  assumes "\<not> list_all is_space ys"
  shows "rstrip (xs @ ys) = xs @ rstrip ys"
proof -
  from assms obtain y where "y \<in> set (rev ys)" "\<not> is_space y"
    by (auto simp: list_all_iff)
  then have "dropWhile is_space (rev ys @ rev xs) = dropWhile is_space (rev ys) @ rev xs"
    by (rule dropWhile_append1)
  then show ?thesis
    by (simp add: rstrip_def)
qed

lemma set_rstrip: "set (rstrip s) \<subseteq> set s"
  using set_dropWhileD [of _ is_space "rev s"] by (auto simp: rstrip_def)

lemma set_lstrip: "set (lstrip s) \<subseteq> set s"
  using set_dropWhileD [of _ is_space s] by (auto simp: lstrip_def)

lemma set_strip: "set (strip s) \<subseteq> set s"
  using set_rstrip [of "lstrip s"] set_lstrip [of s] by (auto simp: strip_def)

lemma rstrip_idem: "rstrip (rstrip s) = rstrip s"
  by (simp add: rstrip_def)

lemma lstrip_Cons: "\<not> is_space c \<Longrightarrow> lstrip (c # s) = c # s"
  by (simp add: lstrip_def)

lemma rstrip_Cons: "\<not> is_space c \<Longrightarrow> rstrip (c # s) = c # rstrip s"
proof (cases "\<forall>x \<in> set (rev s). is_space x")
  case True
  then have "dropWhile is_space (rev s) = []"
    by simp
  moreover assume "\<not> is_space c"
  ultimately show ?thesis
    using True by (simp add: rstrip_def dropWhile_append)
next
  case False
  then show ?thesis
    by (simp add: rstrip_def dropWhile_append)
qed

text \<open>A string that starts with a character that is no space is stripped at its end only.\<close>

lemma strip_Cons: "\<not> is_space c \<Longrightarrow> strip (c # s) = c # rstrip s"
  by (simp add: strip_def lstrip_Cons rstrip_Cons)

lemma strip_rstrip_Cons: "\<not> is_space c \<Longrightarrow> strip (rstrip (c # s)) = strip (c # s)"
  by (simp add: rstrip_Cons strip_Cons rstrip_idem)

lemma split_no_sep: "c \<notin> set s \<Longrightarrow> split c s = [s]"
  by (induction s) auto

lemma split_append: "c \<notin> set xs \<Longrightarrow> split c (xs @ c # ys) = xs # split c ys"
  by (induction xs) auto

lemma split_nonempty: "split c s \<noteq> []"
  by (induction s) (auto split: list.splits)

lemma in_split: "p \<in> set (split c s) \<Longrightarrow> c \<notin> set p \<and> set p \<subseteq> set s"
proof (induction s arbitrary: p)
  case Nil
  then show ?case by simp
next
  case (Cons x s)
  show ?case
  proof (cases "x = c")
    case True
    with Cons show ?thesis by auto
  next
    case False
    obtain q qs where q: "split c s = q # qs"
      using split_nonempty [of c s] by (cases "split c s") auto
    with False Cons.prems have "p = x # q \<or> p \<in> set qs"
      by auto
    moreover have "c \<notin> set q \<and> set q \<subseteq> set s"
      using Cons.IH [of q] q by simp
    moreover have "p \<in> set qs \<Longrightarrow> c \<notin> set p \<and> set p \<subseteq> set s"
      using Cons.IH [of p] q by simp
    ultimately show ?thesis
      using False by auto
  qed
qed

lemma read_text_no_CR: "CR \<notin> set (read_text s)"
  by (induction s rule: read_text.induct) (auto simp: NL_def CR_def)

lemma read_text_id: "CR \<notin> set s \<Longrightarrow> read_text s = s"
  by (induction s rule: read_text.induct) auto

lemma split_first_append: "c \<notin> set a \<Longrightarrow> split_first c (a @ c # b) = (a, b)"
proof -
  assume "c \<notin> set a"
  then have "takeWhile (\<lambda>x. x \<noteq> c) (a @ c # b) = a"
    and "dropWhile (\<lambda>x. x \<noteq> c) (a @ c # b) = c # b"
    by (induction a) auto
  then show ?thesis
    by (simp add: split_first_def)
qed

subsection \<open>Printing and parsing an id\<close>

lemma digit_char_props:
  assumes "k < 10"
  shows "is_digit (digit_char k)" and "digit_val (digit_char k) = k"
proof -
  from assms have "k = 0 \<or> k = 1 \<or> k = 2 \<or> k = 3 \<or> k = 4 \<or> k = 5 \<or> k = 6 \<or> k = 7 \<or> k = 8 \<or> k = 9"
    by arith
  then show "is_digit (digit_char k)" and "digit_val (digit_char k) = k"
    by (elim disjE; simp add: digit_char_def is_digit_def digit_val_def)+
qed

lemma is_digit_plain:
  assumes "is_digit c"
  shows "\<not> is_space c" "c \<noteq> CHR ''_''" "c \<noteq> CHR ''+''" "c \<noteq> CHR ''-''"
    "c \<noteq> BAR" "c \<noteq> TAB" "c \<noteq> NL" "c \<noteq> CR"
  using assms
  by (simp_all add: is_digit_def; elim disjE; simp add: is_space_def BAR_def TAB_def NL_def CR_def)+

lemma str_nat_digits: "list_all is_digit (str_nat n) \<and> str_nat n \<noteq> []"
proof (induction n rule: str_nat.induct)
  case (1 n)
  show ?case
  proof (cases "n < 10")
    case True
    then show ?thesis
      by (subst (1 2) str_nat.simps) (simp add: digit_char_props)
  next
    case False
    with 1 show ?thesis
      by (subst (1 2) str_nat.simps) (simp add: digit_char_props)
  qed
qed

lemma str_nat_value: "foldl (\<lambda>a c. 10 * a + digit_val c) 0 (str_nat n) = n"
proof (induction n rule: str_nat.induct)
  case (1 n)
  show ?case
  proof (cases "n < 10")
    case True
    then show ?thesis
      by (subst str_nat.simps) (simp add: digit_char_props)
  next
    case False
    with 1 show ?thesis
      by (subst str_nat.simps) (simp add: digit_char_props)
  qed
qed

lemma no_double_underscore_digits: "list_all is_digit s \<Longrightarrow> no_double_underscore s"
  by (induction s rule: no_double_underscore.induct) (auto simp: is_digit_plain)

lemma int_digits_str_nat: "int_digits (str_nat n) = Some n"
proof -
  have d: "list_all is_digit (str_nat n)" and ne: "str_nat n \<noteq> []"
    using str_nat_digits by simp_all
  from d have f: "filter is_digit (str_nat n) = str_nat n"
    by (simp add: list_all_iff)
  from d ne have "is_digit (hd (str_nat n))" "is_digit (last (str_nat n))"
    by (simp_all add: list_all_iff)
  then have "hd (str_nat n) \<noteq> CHR ''_''" "last (str_nat n) \<noteq> CHR ''_''"
    using is_digit_plain(2) by blast+
  moreover from d have "list_all (\<lambda>c. is_digit c \<or> c = CHR ''_'') (str_nat n)"
    by (simp add: list_all_iff)
  ultimately show ?thesis
    using ne d by (simp add: int_digits_def f str_nat_value no_double_underscore_digits)
qed

lemma strip_plain:
  assumes "s \<noteq> []" "\<not> is_space (hd s)" "\<not> is_space (last s)"
  shows "strip s = s"
proof -
  from assms(1) obtain c r where s: "s = c # r"
    by (cases s) auto
  from assms(1) obtain b l where b: "s = b @ [l]"
    by (cases s rule: rev_cases) auto
  with assms(3) have "rstrip s = s"
    by (simp add: rstrip_snoc)
  moreover from s assms(2) have "lstrip s = s"
    by (simp add: lstrip_Cons)
  ultimately show ?thesis
    by (simp add: strip_def)
qed

lemma str_int_chars: "c \<in> set (str_int i) \<Longrightarrow> is_digit c \<or> c = CHR ''-''"
  using str_nat_digits by (auto simp: str_int_def list_all_iff split: if_splits)

lemma str_int_nonempty: "str_int i \<noteq> []"
  using str_nat_digits by (simp add: str_int_def)

lemma minus_plain:
  "\<not> is_space CHR ''-''" "CHR ''-'' \<noteq> BAR" "CHR ''-'' \<noteq> TAB" "CHR ''-'' \<noteq> NL"
  "CHR ''-'' \<noteq> CR"
  by (simp_all add: is_space_def BAR_def TAB_def NL_def CR_def)

lemma str_int_hd: "\<not> is_space (hd (str_int i))"
proof -
  have "hd (str_int i) \<in> set (str_int i)"
    using str_int_nonempty by simp
  from str_int_chars [OF this] show ?thesis
    using is_digit_plain(1) minus_plain(1) by metis
qed

lemma str_int_plain:
  assumes "c \<in> set (str_int i)"
  shows "c \<noteq> BAR" "c \<noteq> TAB" "c \<noteq> NL" "c \<noteq> CR"
  using str_int_chars [OF assms] is_digit_plain(5,6,7,8) [of c] minus_plain by metis+

lemma py_int_str_int: "py_int (str_int i) = Some i"
proof -
  have ne: "str_nat n \<noteq> []" and dl: "is_digit (last (str_nat n))" and dh: "is_digit (hd (str_nat n))" for n
    using str_nat_digits [of n] by (simp_all add: list_all_iff)
  show ?thesis
  proof (cases "i < 0")
    case True
    have "strip (CHR ''-'' # str_nat (nat (- i))) = CHR ''-'' # str_nat (nat (- i))"
      using ne dl by (intro strip_plain) (simp_all add: is_digit_plain minus_plain)
    with True show ?thesis
      by (simp add: py_int_def str_int_def int_digits_str_nat)
  next
    case False
    obtain c r where cr: "str_nat (nat i) = c # r"
      using ne [of "nat i"] by (cases "str_nat (nat i)") auto
    have "strip (str_nat (nat i)) = str_nat (nat i)"
      using ne dl dh by (intro strip_plain) (simp_all add: is_digit_plain)
    moreover have "is_digit c"
      using dh [of "nat i"] cr by simp
    ultimately show ?thesis
      using False cr int_digits_str_nat [of "nat i"]
      by (simp add: py_int_def str_int_def is_digit_plain)
  qed
qed

subsection \<open>What a load returns\<close>

lemma is_hex_not_space: "is_hex c \<Longrightarrow> \<not> is_space c"
  by (simp add: is_hex_def; elim disjE; simp add: is_space_def)

lemma normalize_mac_not_blank:
  assumes "normalize_mac s = Inr m"
  shows "\<not> list_all is_space s"
proof -
  from assms have "length (filter is_hex s) = 12"
    by (simp add: normalize_mac_eq split: if_splits)
  then have "filter is_hex s \<noteq> []"
    by auto
  then obtain c where "c \<in> set s" "is_hex c"
    by (auto simp: filter_empty_conv)
  then show ?thesis
    using is_hex_not_space by (auto simp: list_all_iff)
qed

lemma validate_device_name_subset:
  "validate_device_name name = Inr clean_name \<Longrightarrow> set clean_name \<subseteq> set name"
  using set_strip [of name] set_take_subset [of 50 "filter is_name_char (strip name)"]
  by (auto simp: validate_device_name_def Let_def split: if_splits)

lemma set_split_first: "set (snd (split_first c s)) \<subseteq> set s"
  using set_dropWhileD [of _ "\<lambda>x. x \<noteq> c" s] set_drop_subset [of 1 "dropWhile (\<lambda>x. x \<noteq> c) s"]
  by (auto simp: split_first_def)

lemma plain_field_subset: "set a \<subseteq> set b \<Longrightarrow> plain_field b \<Longrightarrow> plain_field a"
  by (auto simp: plain_field_def)


lemma parse_line_SomeE:
  assumes "parse_line k l = Some d"
  obtains name where "2 \<le> length (split TAB (strip l))"
    and "set name \<subseteq> set (split TAB (strip l) ! 0)"
    and "validate_device_name name = Inr (dev_name d)"
    and "normalize_mac (split TAB (strip l) ! 1) = Inr (mac d)"
    and "original_mac d = split TAB (strip l) ! 1"
    and "enabled d"
proof -
  define parts where "parts = split TAB (strip l)"
  define name where "name =
     (if BAR \<in> set (parts ! 0) then snd (split_first BAR (parts ! 0)) else parts ! 0)"
  have sub: "set name \<subseteq> set (parts ! 0)"
    using set_split_first [of BAR "parts ! 0"] by (simp add: name_def)
  from assms have len: "2 \<le> length parts"
    by (simp add: parse_line_def Let_def parts_def split: if_splits)
  define i where "i =
     (if BAR \<in> set (parts ! 0) then
        (case py_int (fst (split_first BAR (parts ! 0))) of Some i \<Rightarrow> i | None \<Rightarrow> int k)
      else int k)"
  have "parse_line k l =
     (if strip l = [] \<or> length parts < 2 then None
      else (case normalize_mac (parts ! 1) of
             Inl e \<Rightarrow> None
           | Inr normalized_mac \<Rightarrow>
               (case validate_device_name name of
                  Inl e \<Rightarrow> None
                | Inr clean_name \<Rightarrow>
                    Some \<lparr>dev_id = i, dev_name = clean_name, mac = normalized_mac,
                          original_mac = parts ! 1, enabled = True, line_number = k\<rparr>)))"
    unfolding parse_line_def Let_def parts_def [symmetric] name_def i_def
    by (auto split: prod.splits option.splits sum.splits)
  with assms len have "(case normalize_mac (parts ! 1) of
             Inl e \<Rightarrow> None
           | Inr normalized_mac \<Rightarrow>
               (case validate_device_name name of
                  Inl e \<Rightarrow> None
                | Inr clean_name \<Rightarrow>
                    Some \<lparr>dev_id = i, dev_name = clean_name, mac = normalized_mac,
                          original_mac = parts ! 1, enabled = True, line_number = k\<rparr>)) = Some d"
    by (simp split: if_splits)
  then have "validate_device_name name = Inr (dev_name d)
      \<and> normalize_mac (parts ! 1) = Inr (mac d) \<and> original_mac d = parts ! 1 \<and> enabled d"
    by (auto split: sum.splits)
  with len sub that show ?thesis
    unfolding parts_def by blast
qed

lemma parse_line_fits:
  assumes "parse_line k l = Some d" "NL \<notin> set l" "CR \<notin> set l"
  shows "fits_store d \<and> enabled d"
proof -
  from assms(1) obtain name where len: "2 \<le> length (split TAB (strip l))"
    and name: "set name \<subseteq> set (split TAB (strip l) ! 0)"
    and clean: "validate_device_name name = Inr (dev_name d)"
    and norm: "normalize_mac (split TAB (strip l) ! 1) = Inr (mac d)"
    and orig: "original_mac d = split TAB (strip l) ! 1"
    and en: "enabled d"
    by (rule parse_line_SomeE)
  have part: "plain_field p" if "p \<in> set (split TAB (strip l))" for p
  proof -
    from in_split [OF that] have "TAB \<notin> set p" "set p \<subseteq> set (strip l)"
      by simp_all
    with set_strip [of l] assms(2,3) show ?thesis
      by (auto simp: plain_field_def)
  qed
  from len have "split TAB (strip l) ! 0 \<in> set (split TAB (strip l))"
    by (intro nth_mem) linarith
  moreover from len have "split TAB (strip l) ! 1 \<in> set (split TAB (strip l))"
    by (intro nth_mem) linarith
  ultimately have p0: "plain_field (split TAB (strip l) ! 0)" and p1: "plain_field (split TAB (strip l) ! 1)"
    using part by blast+
  from validate_device_name_subset [OF clean] name have "set (dev_name d) \<subseteq> set (split TAB (strip l) ! 0)"
    by blast
  with p0 have "plain_field (dev_name d)"
    using plain_field_subset by blast
  with p1 orig normalize_mac_not_blank [OF norm] en show ?thesis
    by (simp add: fits_store_def)
qed

lemma parse_lines_fits:
  assumes "d \<in> set (parse_lines k ls)" "\<forall>l \<in> set ls. NL \<notin> set l \<and> CR \<notin> set l"
  shows "fits_store d \<and> enabled d"
  using assms
proof (induction ls arbitrary: k)
  case Nil
  then show ?case by simp
next
  case (Cons l ls)
  show ?case
  proof (cases "parse_line k l")
    case None
    with Cons show ?thesis by simp
  next
    case (Some d')
    with Cons.prems have "d = d' \<or> d \<in> set (parse_lines (Suc k) ls)"
      by simp
    then show ?thesis
    proof
      assume "d = d'"
      with Some Cons.prems(2) parse_line_fits [of k l d'] show ?thesis by simp
    next
      assume "d \<in> set (parse_lines (Suc k) ls)"
      with Cons show ?thesis by simp
    qed
  qed
qed

text \<open>Every loaded device is enabled and fits the store format.\<close>

lemma load_fits:
  assumes "d \<in> set (load_mac_addresses e f)"
  shows "fits_store d \<and> enabled d"
proof -
  from assms obtain file_text where d: "d \<in> set (parse_lines 1 (split NL (strip (read_text file_text))))"
    by (auto simp: load_mac_addresses_def Let_def split: option.splits if_splits)
  have "NL \<notin> set l \<and> CR \<notin> set l" if "l \<in> set (split NL (strip (read_text file_text)))" for l
  proof -
    from in_split [OF that] have "NL \<notin> set l" "set l \<subseteq> set (strip (read_text file_text))"
      by simp_all
    with set_strip [of "read_text file_text"] read_text_no_CR [of file_text] show ?thesis
      by auto
  qed
  with d show ?thesis
    using parse_lines_fits by blast
qed

subsection \<open>Reading back what a save wrote\<close>

lemma space_chars: "is_space TAB" "is_space NL"
  by (simp_all add: is_space_def TAB_def NL_def)

lemma sep_chars: "BAR \<noteq> TAB" "BAR \<noteq> NL" "BAR \<noteq> CR" "TAB \<noteq> NL" "TAB \<noteq> CR" "NL \<noteq> CR"
  by (simp_all add: BAR_def TAB_def NL_def CR_def)

lemma store_line_Cons: "\<exists>c rest. store_line d = c # rest \<and> \<not> is_space c"
proof -
  obtain c r where cr: "str_int (dev_id d) = c # r"
    using str_int_nonempty [of "dev_id d"] by (cases "str_int (dev_id d)") auto
  with str_int_hd [of "dev_id d"] have "\<not> is_space c"
    by simp
  with cr show ?thesis
    by (simp add: store_line_def)
qed

text \<open>What \<open>parse_line\<close> sees of a stored line.\<close>

lemma strip_store_line:
  assumes "fits_store d"
  shows "strip (store_line d) =
     (str_int (dev_id d) @ [BAR] @ dev_name d) @ TAB # rstrip (original_mac d)"
proof -
  obtain c rest where cr: "store_line d = c # rest" "\<not> is_space c"
    using store_line_Cons by blast
  then have a: "strip (store_line d) = rstrip (store_line d)"
    by (simp add: strip_Cons rstrip_Cons)
  define body where "body = (str_int (dev_id d) @ [BAR] @ dev_name d @ [TAB]) @ original_mac d"
  have b: "store_line d = body @ [TAB]"
    by (simp add: store_line_def body_def)
  have c: "rstrip (body @ [TAB]) = rstrip body"
    by (simp add: rstrip_snoc space_chars)
  have "rstrip body = (str_int (dev_id d) @ [BAR] @ dev_name d @ [TAB]) @ rstrip (original_mac d)"
    unfolding body_def using assms by (intro rstrip_append) (simp add: fits_store_def)
  with a b c show ?thesis
    by simp
qed

lemma parse_line_store_line:
  assumes "fits_store d" "parse_line k (store_line d) = Some d'"
  shows "dev_id d' = dev_id d"
proof -
  define head where "head = str_int (dev_id d) @ [BAR] @ dev_name d"
  have s: "strip (store_line d) = head @ TAB # rstrip (original_mac d)"
    using strip_store_line [OF assms(1)] by (simp add: head_def)
  have no_tab: "TAB \<notin> set head"
    using assms(1) str_int_plain(2) [of TAB "dev_id d"]
    by (auto simp: head_def fits_store_def plain_field_def sep_chars sep_chars [symmetric])
  have "TAB \<notin> set (rstrip (original_mac d))"
    using assms(1) set_rstrip [of "original_mac d"] by (auto simp: fits_store_def plain_field_def)
  then have parts: "split TAB (head @ TAB # rstrip (original_mac d)) = [head, rstrip (original_mac d)]"
    using no_tab by (simp add: split_append split_no_sep)
  have bar: "BAR \<in> set head"
    by (simp add: head_def)
  have "BAR \<notin> set (str_int (dev_id d))"
    using str_int_plain(1) [of BAR "dev_id d"] by blast
  then have sf: "split_first BAR head = (str_int (dev_id d), dev_name d)"
    unfolding head_def by (simp add: split_first_append)
  from assms(2) show ?thesis
    by (auto simp: parse_line_def Let_def parts bar sf py_int_str_int s
        split: if_splits sum.splits)
qed

lemma parse_line_strip_cong: "strip l = strip l' \<Longrightarrow> parse_line k l = parse_line k l'"
  by (simp add: parse_line_def)

lemma parse_line_rstrip_store_line:
  "parse_line k (rstrip (store_line d)) = parse_line k (store_line d)"
proof -
  obtain c rest where "store_line d = c # rest" "\<not> is_space c"
    using store_line_Cons by blast
  then have "strip (rstrip (store_line d)) = strip (store_line d)"
    by (simp add: strip_rstrip_Cons)
  then show ?thesis
    by (rule parse_line_strip_cong)
qed

lemma parse_lines_append:
  "parse_lines k (xs @ ys) = parse_lines k xs @ parse_lines (k + length xs) ys"
  by (induction xs arbitrary: k) (auto split: option.splits)

lemma parse_lines_store_lines:
  assumes "\<forall>d \<in> set ds. fits_store d"
  shows "dev_id ` set (parse_lines k (map store_line ds)) \<subseteq> dev_id ` set ds"
  using assms
proof (induction ds arbitrary: k)
  case Nil
  then show ?case by simp
next
  case (Cons d ds)
  then have IH: "dev_id ` set (parse_lines (Suc k) (map store_line ds)) \<subseteq> dev_id ` set ds"
    by simp
  show ?case
  proof (cases "parse_line k (store_line d)")
    case None
    with IH show ?thesis by auto
  next
    case (Some d')
    with Cons.prems have "dev_id d' = dev_id d"
      using parse_line_store_line by simp
    with Some IH show ?thesis by auto
  qed
qed

lemma join_snoc: "join sep (xs @ [x]) = concat (map (\<lambda>l. l @ sep) xs) @ x"
proof (induction xs)
  case Nil
  then show ?case by simp
next
  case (Cons a xs)
  then show ?case by (cases xs) simp_all
qed

lemma join_Cons: "\<exists>rest. join sep (l # ls) = l @ rest"
  by (cases ls) simp_all

lemma split_lines:
  assumes "\<forall>l \<in> set xs. c \<notin> set l" "c \<notin> set x"
  shows "split c (concat (map (\<lambda>l. l @ [c]) xs) @ x) = xs @ [x]"
  using assms by (induction xs) (simp_all add: split_no_sep split_append)

lemma store_line_plain:
  assumes "fits_store d"
  shows "NL \<notin> set (store_line d)" "CR \<notin> set (store_line d)"
  using assms str_int_plain(3) [of NL "dev_id d"] str_int_plain(4) [of CR "dev_id d"]
  by (auto simp: store_line_def fits_store_def plain_field_def sep_chars sep_chars [symmetric])

lemma rstrip_store_line_nonblank: "\<not> list_all is_space (store_line d @ s)"
  using store_line_Cons [of d] by auto

lemma load_written:
  assumes "\<forall>d \<in> set ds. fits_store d"
  shows "dev_id ` set (load_mac_addresses e \<lparr>store = Some (join [NL] (map store_line ds) @ [NL]),
            backups = b\<rparr>) \<subseteq> dev_id ` set ds"
proof (cases ds rule: rev_cases)
  case Nil
  have "strip [NL] = []"
    by (simp add: strip_def lstrip_def rstrip_def space_chars)
  moreover have "read_text [NL] = [NL]"
    by (simp add: sep_chars)
  ultimately show ?thesis
    using Nil by (simp add: load_mac_addresses_def)
next
  case (snoc ds0 dl)
  define ls where "ls = map store_line ds0"
  define x where "x = store_line dl"
  define P where "P = concat (map (\<lambda>l. l @ [NL]) ls)"
  define file_text where "file_text = join [NL] (map store_line ds) @ [NL]"
  have ft: "file_text = P @ x @ [NL]"
    using snoc by (simp add: file_text_def join_snoc ls_def x_def P_def)
  have plain: "NL \<notin> set l \<and> CR \<notin> set l" if "l \<in> set (ls @ [x])" for l
    using that assms snoc store_line_plain by (auto simp: ls_def x_def)
  have "CR \<notin> set file_text"
    using plain by (auto simp: ft P_def sep_chars sep_chars [symmetric])
  then have rt: "read_text file_text = file_text"
    by (rule read_text_id)
  have "ds \<noteq> []"
    using snoc by simp
  then obtain d1 ds1 where ds: "ds = d1 # ds1"
    by (meson neq_Nil_conv)
  obtain rest where "join [NL] (store_line d1 # map store_line ds1) = store_line d1 @ rest"
    using join_Cons by blast
  moreover obtain c r where "store_line d1 = c # r" "\<not> is_space c"
    using store_line_Cons by blast
  ultimately have "file_text = c # (r @ rest @ [NL])" "\<not> is_space c"
    by (simp_all add: file_text_def ds)
  then have "lstrip file_text = file_text"
    by (simp add: lstrip_Cons)
  then have "strip file_text = rstrip ((P @ x) @ [NL])"
    by (simp add: strip_def ft)
  also have "\<dots> = rstrip (P @ x)"
    by (simp only: rstrip_snoc space_chars if_True)
  also have "\<dots> = P @ rstrip x"
    using rstrip_store_line_nonblank [of dl "[]"] by (intro rstrip_append) (simp add: x_def)
  finally have content: "strip file_text = P @ rstrip x" .
  have "NL \<notin> set (rstrip x)"
    using plain [of x] set_rstrip [of x] by auto
  with plain have lines: "split NL (P @ rstrip x) = ls @ [rstrip x]"
    unfolding P_def by (intro split_lines) simp_all
  have "parse_lines 1 (ls @ [rstrip x]) = parse_lines 1 (ls @ [x])"
    by (simp add: parse_lines_append x_def parse_line_rstrip_store_line)
  also have "ls @ [x] = map store_line ds"
    by (simp add: ls_def x_def snoc)
  finally have parsed: "parse_lines 1 (split NL (strip file_text)) = parse_lines 1 (map store_line ds)"
    by (simp add: content lines)
  have "set (load_mac_addresses e \<lparr>store = Some file_text, backups = b\<rparr>)
        \<subseteq> set (parse_lines 1 (map store_line ds))"
    using parsed by (simp add: load_mac_addresses_def Let_def rt)
  with parse_lines_store_lines [OF assms, of 1] show ?thesis
    unfolding file_text_def by blast
qed

subsection \<open>Disabling a device\<close>

lemma find_index_split:
  assumes "find_index P xs = Some k"
  obtains as x bs where "xs = as @ x # bs" "length as = k" "P x" "\<forall>a \<in> set as. \<not> P a"
proof -
  from assms have k: "k < length xs" "P (xs ! k)" "\<forall>j < k. \<not> P (xs ! j)"
    by (simp_all add: find_index_iff)
  have "xs = take k xs @ xs ! k # drop (Suc k) xs"
    using k(1) by (rule id_take_nth_drop)
  moreover have "length (take k xs) = k"
    using k(1) by simp
  moreover have "\<forall>a \<in> set (take k xs). \<not> P a"
    using k(1,3) by (auto simp: in_set_conv_nth)
  ultimately show ?thesis
    using k(2) that by blast
qed

lemma store_text_enabled:
  "store_text devices = join [NL] (map store_line (sort_key dev_id (filter enabled devices))) @ [NL]"
  by (simp add: store_text_def filter_sort)

lemma disable_and_delete:
  assumes "get_device e f i = Some d0"
    and "length (filter (\<lambda>d. dev_id d = i) (load_mac_addresses e f)) = 1"
    and "\<not> backup_read_fails e" "\<not> backup_write_fails e" "\<not> store_write_fails e"
  shows "fst (update_device e f i None None (Some False)) = Inr (d0\<lparr>enabled := False\<rparr>)"
    and "delete_device e f i = (Inr True, snd (update_device e f i None None (Some False)))"
    and "\<forall>d \<in> set (load_mac_addresses e' (snd (update_device e f i None None (Some False)))).
           dev_id d \<noteq> i"
proof -
  define devices where "devices = load_mac_addresses e f"
  from assms(1) obtain k where k: "find_index (\<lambda>d. dev_id d = i) devices = Some k"
    and dk: "devices ! k = d0"
    unfolding get_device_def devices_def using find_find_index by fastforce
  from k obtain as x bs where xs0: "devices = as @ x # bs" and len: "length as = k"
    and x0: "dev_id x = i" and as: "\<forall>a \<in> set as. dev_id a \<noteq> i"
    by (rule find_index_split)
  from dk xs0 len have "x = d0"
    by (simp add: nth_append)
  with xs0 x0 have xs: "devices = as @ d0 # bs" and x: "dev_id d0 = i"
    by simp_all
  have fa: "filter (\<lambda>d. dev_id d = i) as = []"
    using as by (simp add: filter_empty_conv)
  from assms(2) have "filter (\<lambda>d. dev_id d = i) bs = []"
    unfolding devices_def [symmetric] xs using x fa by simp
  then have bs: "\<forall>b \<in> set bs. dev_id b \<noteq> i"
    by (simp add: filter_empty_conv)
  have en: "\<forall>d \<in> set devices. enabled d" and fit: "\<forall>d \<in> set devices. fits_store d"
    using load_fits unfolding devices_def by blast+
  have upd: "devices[k := (devices ! k)\<lparr>enabled := False\<rparr>] = as @ d0\<lparr>enabled := False\<rparr> # bs"
    using len by (simp add: xs nth_append list_update_append)
  have "filter enabled (as @ d0\<lparr>enabled := False\<rparr> # bs) = as @ bs"
    using en by (simp add: xs)
  then have st1: "store_text (as @ d0\<lparr>enabled := False\<rparr> # bs)
      = join [NL] (map store_line (sort_key dev_id (as @ bs))) @ [NL]"
    by (simp add: store_text_enabled)
  have rem: "filter (\<lambda>d. dev_id d \<noteq> i) devices = as @ bs"
    using as bs x by (simp add: xs)
  have "filter enabled (as @ bs) = as @ bs"
    using en by (simp add: xs)
  then have st2: "store_text (as @ bs) = join [NL] (map store_line (sort_key dev_id (as @ bs))) @ [NL]"
    by (simp add: store_text_enabled)
  have u: "update_device e f i None None (Some False) =
     (Inr (d0\<lparr>enabled := False\<rparr>),
      \<lparr>store = Some (join [NL] (map store_line (sort_key dev_id (as @ bs))) @ [NL]),
       backups = (case store f of None \<Rightarrow> backups f
                  | Some t \<Rightarrow> (backup_name (now e), read_text t) # backups f)\<rparr>)"
    using k assms(3,4,5) len
    by (simp add: update_device_def devices_def [symmetric] update_name_def update_mac_def
        update_enabled_def save_succeeds upd st1 Let_def nth_append)
  show "fst (update_device e f i None None (Some False)) = Inr (d0\<lparr>enabled := False\<rparr>)"
    by (simp add: u)
  have "length (filter (\<lambda>d. dev_id d \<noteq> i) devices) \<noteq> length devices"
    unfolding rem by (simp add: xs)
  then show "delete_device e f i = (Inr True, snd (update_device e f i None None (Some False)))"
    using assms(3,4,5)
    by (simp add: u delete_device_def devices_def [symmetric] Let_def rem save_succeeds st2)
  have "\<forall>d \<in> set (sort_key dev_id (as @ bs)). fits_store d"
    using fit by (simp add: xs)
  from load_written [OF this]
  have "dev_id ` set (load_mac_addresses e' (snd (update_device e f i None None (Some False))))
        \<subseteq> dev_id ` set (as @ bs)"
    by (simp add: u)
  moreover have "i \<notin> dev_id ` set (as @ bs)"
    using as bs by auto
  ultimately show "\<forall>d \<in> set (load_mac_addresses e' (snd (update_device e f i None None (Some False)))).
           dev_id d \<noteq> i"
    by blast
qed

lemma find_in_set: "find P xs = Some x \<Longrightarrow> x \<in> set xs"
  by (induction xs) (auto split: if_splits)

text \<open>
  C10, as the code has it. Every device that a read returns is enabled. When
  exactly one loaded device holds the id and the save goes through,
  \<open>update_device\<close> with \<^verbatim>\<open>enabled=False\<close> returns the device, leaves the files
  exactly as \<open>delete_device\<close> leaves them, and no later read returns a device
  with that id.
\<close>

theorem disabled_device_is_gone:
  "(\<forall>d \<in> set (get_all_devices e f). enabled d)
   \<and> (\<forall>d. get_device e f i = Some d \<longrightarrow> enabled d)
   \<and> get_enabled_devices e f = get_all_devices e f
   \<and> (get_device e f i = Some d0
       \<and> length (filter (\<lambda>d. dev_id d = i) (load_mac_addresses e f)) = 1
       \<and> \<not> backup_read_fails e \<and> \<not> backup_write_fails e \<and> \<not> store_write_fails e
      \<longrightarrow> fst (update_device e f i None None (Some False)) = Inr (d0\<lparr>enabled := False\<rparr>)
        \<and> delete_device e f i = (Inr True, snd (update_device e f i None None (Some False)))
        \<and> get_device e' (snd (update_device e f i None None (Some False))) i = None
        \<and> (\<forall>d \<in> set (get_all_devices e' (snd (update_device e f i None None (Some False)))).
              dev_id d \<noteq> i))"
proof (intro conjI impI allI)
  show en: "\<forall>d \<in> set (get_all_devices e f). enabled d"
    using load_fits by (simp add: get_all_devices_def)
  show "enabled d" if "get_device e f i = Some d" for d
  proof -
    from that have "d \<in> set (load_mac_addresses e f)"
      unfolding get_device_def by (rule find_in_set)
    then show ?thesis
      using load_fits by blast
  qed
  show "get_enabled_devices e f = get_all_devices e f"
    using en by (simp add: get_enabled_devices_def get_all_devices_def)
next
  assume h: "get_device e f i = Some d0
       \<and> length (filter (\<lambda>d. dev_id d = i) (load_mac_addresses e f)) = 1
       \<and> \<not> backup_read_fails e \<and> \<not> backup_write_fails e \<and> \<not> store_write_fails e"
  then show "fst (update_device e f i None None (Some False)) = Inr (d0\<lparr>enabled := False\<rparr>)"
    and "delete_device e f i = (Inr True, snd (update_device e f i None None (Some False)))"
    using disable_and_delete(1,2) by blast+
  from h have gone: "\<forall>d \<in> set (load_mac_addresses e' (snd (update_device e f i None None (Some False)))).
           dev_id d \<noteq> i"
    using disable_and_delete(3) by blast
  then show "\<forall>d \<in> set (get_all_devices e' (snd (update_device e f i None None (Some False)))).
              dev_id d \<noteq> i"
    by (simp add: get_all_devices_def)
  from gone show "get_device e' (snd (update_device e f i None None (Some False))) i = None"
    by (simp add: get_device_def find_None_iff)
qed

theorem disabled_device_is_gone_witness:
  "get_device healthy two_devices 1 = Some kids_tablet
   \<and> length (filter (\<lambda>d. dev_id d = 1) (load_mac_addresses healthy two_devices)) = 1
   \<and> fst (update_device healthy two_devices 1 None None (Some False))
       = Inr (kids_tablet\<lparr>enabled := False\<rparr>)
   \<and> delete_device healthy two_devices 1
       = (Inr True, snd (update_device healthy two_devices 1 None None (Some False)))
   \<and> get_device healthy (snd (update_device healthy two_devices 1 None None (Some False))) 1 = None"
proof -
  have h: "get_device healthy two_devices 1 = Some kids_tablet
   \<and> length (filter (\<lambda>d. dev_id d = 1) (load_mac_addresses healthy two_devices)) = 1"
    by code_simp
  have e: "\<not> backup_read_fails healthy \<and> \<not> backup_write_fails healthy
           \<and> \<not> store_write_fails healthy"
    by (simp add: healthy_def)
  from disabled_device_is_gone [of healthy two_devices 1 kids_tablet healthy] h e
  show ?thesis by blast
qed

text \<open>
  C10, as the claim states it, fails on a store in which two lines carry the
  same id: the update disables the first of them and succeeds, and the next
  \<open>get_device\<close> returns the second.
\<close>

theorem shared_id_counterexample:
  "fst (update_device healthy shared_id 3 None None (Some False))
     = Inr \<lparr>dev_id = 3, dev_name = ''a'', mac = ''00:00:00:00:00:01'',
            original_mac = ''00:00:00:00:00:01'', enabled = False, line_number = 1\<rparr>
   \<and> get_device healthy (snd (update_device healthy shared_id 3 None None (Some False))) 3
     = Some \<lparr>dev_id = 3, dev_name = ''b'', mac = ''00:00:00:00:00:02'',
             original_mac = ''00:00:00:00:00:02'', enabled = True, line_number = 1\<rparr>"
  by code_simp

section \<open>Properties of the alias upsert\<close>

subsection \<open>Paths\<close>

lemma tag_update_at: "(\<And>x. tag (g x) = tag x) \<Longrightarrow> tag (update_at p g e) = tag e"
  by (cases p) simp_all

lemma length_children_update_at:
  "p \<noteq> [] \<Longrightarrow> length (children (update_at p g e)) = length (children e)"
  by (cases p) simp_all

lemma subtree_update_at:
  "valid_path e p \<Longrightarrow> subtree (update_at p g e) p = g (subtree e p)"
  by (induction p arbitrary: e) simp_all

lemma update_at_id:
  "valid_path e p \<Longrightarrow> g (subtree e p) = subtree e p \<Longrightarrow> update_at p g e = e"
proof (induction p arbitrary: e)
  case Nil
  then show ?case by simp
next
  case (Cons i p)
  then have "update_at p g (children e ! i) = children e ! i"
    by simp
  then show ?case
    by (simp add: set_children_def)
qed

lemma update_at_append: "update_at (p @ q) g e = update_at p (update_at q g) e"
  by (induction p arbitrary: e) simp_all

lemma subtree_append: "subtree e (p @ q) = subtree (subtree e p) q"
  by (induction p arbitrary: e) simp_all

lemma valid_path_append:
  "valid_path e (p @ q) \<longleftrightarrow> valid_path e p \<and> valid_path (subtree e p) q"
  by (induction p arbitrary: e) auto

lemma valid_path_update_at:
  "valid_path e p \<Longrightarrow> valid_path (update_at p g e) p"
  by (induction p arbitrary: e) simp_all

lemma follows_valid: "follows e ts p \<Longrightarrow> valid_path e p \<and> length p = length ts"
  by (induction e ts p rule: follows.induct) (auto simp: find_child_less)

lemma set_children_same [simp]: "set_children (children e) e = e"
  by (simp add: set_children_def)

subsection \<open>The path search is not disturbed by a change at its result\<close>

lemma first_some_cong:
  "(\<And>i. i \<in> set is \<Longrightarrow> f i = g i) \<Longrightarrow> first_some f is = first_some g is"
  by (induction "is") (auto split: option.splits)

lemma first_some_Some:
  "first_some f is = Some r \<Longrightarrow> \<exists>i \<in> set is. f i = Some r"
  by (induction "is") (auto split: option.splits)

text \<open>A change below the last step of the path is not seen by \<open>chain\<close>.\<close>

lemma chain_update_below:
  "length ts < length q \<Longrightarrow> chain ts (update_at q g e) = chain ts e"
proof (induction ts arbitrary: q e)
  case Nil
  then show ?case by simp
next
  case (Cons t ts)
  then obtain i q' where q: "q = i # q'" and len: "length ts < length q'"
    by (cases q) auto
  then have ne: "q' \<noteq> []"
    by auto
  define step where "step =
     (\<lambda>x j. if tag (children x ! j) = t then map_option ((#) j) (chain ts (children x ! j))
            else None)"
  define e' where "e' = update_at (i # q') g e"
  have cs: "children e' = (children e)[i := update_at q' g (children e ! i)]"
    by (simp add: e'_def)
  have same: "step e' j = step e j" if "j < length (children e)" for j
  proof (cases "j = i")
    case True
    have "tag (update_at q' g (children e ! i)) = tag (children e ! i)"
      using ne by (cases q') simp_all
    moreover have "chain ts (update_at q' g (children e ! i)) = chain ts (children e ! i)"
      using len by (rule Cons.IH)
    ultimately show ?thesis
      using True that by (simp add: step_def cs)
  next
    case False
    then show ?thesis by (simp add: step_def cs)
  qed
  have "chain (t # ts) e' = first_some (step e') [0 ..< length (children e')]"
    unfolding step_def by simp
  also have "\<dots> = first_some (step e') [0 ..< length (children e)]"
    by (simp add: cs)
  also have "\<dots> = first_some (step e) [0 ..< length (children e)]"
    using same by (intro first_some_cong) simp
  also have "\<dots> = chain (t # ts) e"
    unfolding step_def by simp
  finally show ?case
    by (simp add: q e'_def)
qed

lemma first_some_iff:
  "first_some f is = Some r \<longleftrightarrow>
     (\<exists>k < length is. f (is ! k) = Some r \<and> (\<forall>j < k. f (is ! j) = None))"
proof (induction "is")
  case Nil
  then show ?case by simp
next
  case (Cons i "is")
  show ?case
  proof (cases "f i")
    case None
    have "(\<exists>k < length (i # is). f ((i # is) ! k) = Some r \<and> (\<forall>j < k. f ((i # is) ! j) = None))
        \<longleftrightarrow> (\<exists>k < length is. f (is ! k) = Some r \<and> (\<forall>j < k. f (is ! j) = None))"
      (is "?L \<longleftrightarrow> ?R")
    proof
      assume ?L
      then obtain k where k: "k < length (i # is)" "f ((i # is) ! k) = Some r"
        "\<forall>j < k. f ((i # is) ! j) = None"
        by blast
      with None obtain k' where k': "k = Suc k'"
        by (cases k) auto
      with k have "k' < length is" "f (is ! k') = Some r" "\<forall>j < k'. f (is ! j) = None"
        by auto
      then show ?R by blast
    next
      assume ?R
      then obtain k where k: "k < length is" "f (is ! k) = Some r" "\<forall>j < k. f (is ! j) = None"
        by blast
      with None have "Suc k < length (i # is)" "f ((i # is) ! Suc k) = Some r"
        "\<forall>j < Suc k. f ((i # is) ! j) = None"
        by (auto simp: less_Suc_eq_0_disj)
      then show ?L by blast
    qed
    with None Cons.IH show ?thesis by simp
  next
    case (Some r')
    have "r' = r" if "k < length (i # is)" "f ((i # is) ! k) = Some r"
      "\<forall>j < k. f ((i # is) ! j) = None" for k
    proof (cases k)
      case 0
      with that Some show ?thesis by simp
    next
      case (Suc k')
      with that(3) have "f ((i # is) ! 0) = None" by blast
      with Some show ?thesis by simp
    qed
    moreover have "\<exists>k < length (i # is). f ((i # is) ! k) = Some r' \<and> (\<forall>j < k. f ((i # is) ! j) = None)"
      using Some by (intro exI [of _ 0]) simp
    ultimately show ?thesis
      using Some by auto
  qed
qed

lemma first_some_upt_iff:
  "first_some f [0 ..< n] = Some r \<longleftrightarrow> (\<exists>k < n. f k = Some r \<and> (\<forall>j < k. f j = None))"
  by (auto simp: first_some_iff)

text \<open>A change at the last step of the path that keeps the tag is not seen by \<open>chain\<close> either.\<close>

lemma chain_update_at_result:
  assumes "\<And>x. tag (g x) = tag x"
  shows "chain ts e = Some q \<Longrightarrow> length q = length ts \<and> chain ts (update_at q g e) = Some q"
proof (induction ts arbitrary: q e)
  case Nil
  then show ?case by simp
next
  case (Cons t ts)
  define step where "step =
     (\<lambda>x j. if tag (children x ! j) = t then map_option ((#) j) (chain ts (children x ! j))
            else None)"
  have c: "chain (t # ts) x = first_some (step x) [0 ..< length (children x)]" for x
    unfolding step_def by simp
  from Cons.prems obtain i where i: "i < length (children e)" "step e i = Some q"
    "\<forall>j < i. step e j = None"
    unfolding c first_some_upt_iff by blast
  from i(2) obtain q' where q: "q = i # q'" and t: "tag (children e ! i) = t"
    and q': "chain ts (children e ! i) = Some q'"
    by (auto simp: step_def split: if_splits)
  from Cons.IH [OF q'] have len: "length q' = length ts"
    and IH: "chain ts (update_at q' g (children e ! i)) = Some q'"
    by simp_all
  define e' where "e' = update_at (i # q') g e"
  have cs: "children e' = (children e)[i := update_at q' g (children e ! i)]"
    by (simp add: e'_def)
  have "step e' i = Some q"
    using i(1) t IH assms by (simp add: step_def cs q tag_update_at)
  moreover have "\<forall>j < i. step e' j = None"
  proof (intro allI impI)
    fix j
    assume "j < i"
    with i(1) have "step e' j = step e j"
      by (simp add: step_def cs)
    with i(3) \<open>j < i\<close> show "step e' j = None"
      by simp
  qed
  moreover have "i < length (children e')"
    using i(1) by (simp add: cs)
  ultimately have "chain (t # ts) e' = Some q"
    unfolding c first_some_upt_iff by blast
  with len show ?case
    by (simp add: q e'_def)
qed

lemma iter_stable:
  assumes g: "\<And>x. tag (g x) = tag x"
  shows "iter_find t ts e = Some p \<Longrightarrow>
           length ts < length p \<and> iter_find t ts (update_at p g e) = Some p"
    and "iter_list t ts i cs = Some p \<Longrightarrow>
           \<exists>k q. p = k # q \<and> i \<le> k \<and> k - i < length cs \<and> length ts < length p
             \<and> iter_list t ts i (cs[k - i := update_at q g (cs ! (k - i))]) = Some p"
proof (induction t ts e and t ts i cs arbitrary: p and p rule: iter_find_iter_list.induct)
  case (1 t ts a b c d cs)
  from "1.prems" have "iter_list t ts 0 cs = Some p"
    by simp
  from "1.IH" [OF this] obtain k q where p: "p = k # q" and k: "k < length cs"
    and len: "length ts < length p"
    and it: "iter_list t ts 0 (cs[k := update_at q g (cs ! k)]) = Some p"
    by auto
  have "update_at p g (Element a b c d cs) = Element a b c d (cs[k := update_at q g (cs ! k)])"
    by (simp add: p set_children_def)
  with it len show ?case
    by simp
next
  case (2 t ts i)
  then show ?case by simp
next
  case (3 t ts i c cs)
  show ?case
  proof (cases "if tag c = t then chain ts c else None")
    case (Some q)
    then have tc: "tag c = t" and ch: "chain ts c = Some q"
      by (simp_all split: if_splits)
    from Some "3.prems" have p: "p = i # q"
      by simp
    from chain_update_at_result [OF g ch] have len: "length q = length ts"
      and ch': "chain ts (update_at q g c) = Some q"
      by simp_all
    have "iter_list t ts i (update_at q g c # cs) = Some p"
      using tc ch' g by (simp add: p tag_update_at)
    with len show ?thesis
      by (intro exI [of _ i] exI [of _ q]) (simp add: p)
  next
    case None
    note first = this
    show ?thesis
    proof (cases "iter_find t ts c")
      case (Some q)
      with first "3.prems" have p: "p = i # q"
        by simp
      from "3.IH"(1) [OF first Some] have len: "length ts < length q"
        and it: "iter_find t ts (update_at q g c) = Some q"
        by simp_all
      have "tag (update_at q g c) = tag c"
        using g by (rule tag_update_at)
      moreover have "chain ts (update_at q g c) = chain ts c"
        using len by (rule chain_update_below)
      ultimately have "(if tag (update_at q g c) = t then chain ts (update_at q g c) else None) = None"
        using first by (simp split: if_splits)
      with it have "iter_list t ts i (update_at q g c # cs) = Some p"
        by (simp add: p)
      with len show ?thesis
        by (intro exI [of _ i] exI [of _ q]) (simp add: p)
    next
      case None
      with first "3.prems" have "iter_list t ts (Suc i) cs = Some p"
        by simp
      from "3.IH"(2) [OF first None this] obtain k q where p: "p = k # q" and k: "Suc i \<le> k"
        "k - Suc i < length cs" and len: "length ts < length p"
        and it: "iter_list t ts (Suc i) (cs[k - Suc i := update_at q g (cs ! (k - Suc i))]) = Some p"
        by blast
      from k(1) have ki: "k - i = Suc (k - Suc i)"
        by simp
      have "iter_list t ts i ((c # cs)[k - i := update_at q g ((c # cs) ! (k - i))]) = Some p"
        using first None it by (simp add: ki)
      with p k len show ?thesis
        by (intro exI [of _ k] exI [of _ q]) (simp add: ki)
    qed
  qed
qed

subsection \<open>Finding or creating the sections\<close>

lemma follows_update_at:
  assumes g: "\<And>x. tag (g x) = tag x"
  shows "follows e ts p \<Longrightarrow> follows (update_at p g e) ts p"
proof (induction e ts p rule: follows.induct)
  case (1 e)
  then show ?case by simp
next
  case (2 e t ts i p)
  then have f: "find_child t e = Some i" and rest: "follows (children e ! i) ts p"
    by simp_all
  from f have i: "i < length (children e)"
    by (rule find_child_less)
  have "tag (update_at p g (children e ! i)) = tag (children e ! i)"
    using g by (rule tag_update_at)
  with i have "find_child t (set_children ((children e)[i := update_at p g (children e ! i)]) e)
               = find_child t e"
    by (intro find_child_update_other) simp_all
  with f i "2.IH" [OF rest] show ?case
    by simp
qed simp_all

lemma follows_snoc:
  "follows e ts p \<Longrightarrow> find_child t (subtree e p) = Some i \<Longrightarrow> follows e (ts @ [t]) (p @ [i])"
  by (induction e ts p rule: follows.induct) simp_all

lemma follows_find_or_create:
  assumes "follows e ts p" "find_or_create p new e = (e', p')"
  shows "follows e' (ts @ [tag new]) p'"
proof (cases "find_child (tag new) (subtree e p)")
  case (Some i)
  with assms(2) have "e' = e" "p' = p @ [i]"
    by (simp_all add: find_or_create_def)
  with assms(1) Some show ?thesis
    by (simp add: follows_snoc)
next
  case None
  define n where "n = length (children (subtree e p))"
  from None assms(2) have e': "e' = update_at p (append_child new) e" and p': "p' = p @ [n]"
    by (simp_all add: find_or_create_def n_def)
  have "follows e' ts p"
    unfolding e' using assms(1) by (intro follows_update_at) simp_all
  moreover have "subtree e' p = append_child new (subtree e p)"
    unfolding e' using assms(1) follows_valid by (intro subtree_update_at) blast
  then have "find_child (tag new) (subtree e' p) = Some n"
    using None by (simp add: find_child_def find_index_append_new n_def)
  ultimately show ?thesis
    unfolding p' by (rule follows_snoc)
qed

lemma ensure_sections_follows:
  assumes "ensure_sections root = (root1, aliases)"
  shows "follows root1 [''OPNsense'', ''Firewall'', ''Alias'', ''aliases''] aliases"
proof -
  obtain r1 p1 where s1: "find_or_create [] (leaf ''OPNsense'' []) root = (r1, p1)"
    by (cases "find_or_create [] (leaf ''OPNsense'' []) root") auto
  obtain r2 p2 where s2: "find_or_create p1 (leaf ''Firewall'' []) r1 = (r2, p2)"
    by (cases "find_or_create p1 (leaf ''Firewall'' []) r1") auto
  obtain r3 p3 where s3: "find_or_create p2 (Element ''Alias'' [] [] [] [leaf ''version'' ''1.0.1'']) r2 = (r3, p3)"
    by (cases "find_or_create p2 (Element ''Alias'' [] [] [] [leaf ''version'' ''1.0.1'']) r2") auto
  from assms s1 s2 s3 have s4: "find_or_create p3 (leaf ''aliases'' []) r3 = (root1, aliases)"
    by (simp add: ensure_sections_def)
  have "follows root [] []"
    by simp
  from follows_find_or_create [OF this s1] have "follows r1 [''OPNsense''] p1"
    by simp
  from follows_find_or_create [OF this s2] have "follows r2 [''OPNsense'', ''Firewall''] p2"
    by simp
  from follows_find_or_create [OF this s3] have "follows r3 [''OPNsense'', ''Firewall'', ''Alias''] p3"
    by simp
  from follows_find_or_create [OF this s4] show ?thesis
    by simp
qed

lemma find_or_create_found:
  "find_child (tag new) (subtree e p) = Some i \<Longrightarrow> find_or_create p new e = (e, p @ [i])"
  by (simp add: find_or_create_def)

lemma follows_ensure_sections:
  assumes "follows e [''OPNsense'', ''Firewall'', ''Alias'', ''aliases''] p"
  shows "ensure_sections e = (e, p)"
proof -
  from assms obtain a b c d where p: "p = [a, b, c, d]"
    using follows_valid [OF assms] by (auto simp: length_Suc_conv eval_nat_numeral)
  from assms show ?thesis
    unfolding p by (simp add: ensure_sections_def find_or_create_found)
qed

subsection \<open>Running the upsert twice\<close>

lemma update_at_twice:
  "valid_path e p \<Longrightarrow> update_at p f (update_at p h e) = update_at p (\<lambda>x. f (h x)) e"
  by (induction p arbitrary: e) (simp_all add: set_children_def)

lemma update_at_cong:
  "valid_path e p \<Longrightarrow> f (subtree e p) = h (subtree e p) \<Longrightarrow> update_at p f e = update_at p h e"
  by (induction p arbitrary: e) simp_all

lemma alias_named_properties:
  "tag x = ''alias'' \<Longrightarrow> n \<noteq> [] \<Longrightarrow> alias_named n (set_children (alias_properties n devs ts) x)"
  by (simp add: alias_named_def find_child_def alias_properties_def)

lemma tag_write_alias [simp]: "tag (write_alias n devs u ts x) = tag x"
  by (simp add: write_alias_def split: option.splits)

lemma alias_upsert_write_alias:
  assumes E: "ensure_sections root = (root1, A)"
    and H: "iter_find ''OPNsense'' aliases_path root1 = Some A"
  shows "alias_upsert n devs u ts root = update_at A (write_alias n devs u ts) root1"
proof -
  define S where "S = subtree root1 A"
  define props where "props = alias_properties n devs ts"
  have valid: "valid_path root1 A"
    using ensure_sections_follows [OF E] follows_valid by blast
  have fa: "find_alias_by_name root1 n
      = map_option (\<lambda>i. A @ [i]) (find_index (alias_named n) (children S))"
    by (simp add: find_alias_by_name_def H S_def)
  show ?thesis
  proof (cases "find_index (alias_named n) (children S)")
    case (Some j)
    have "alias_upsert n devs u ts root = update_at (A @ [j]) (set_children props) root1"
      by (simp add: alias_upsert_def E fa Some props_def)
    also have "\<dots> = update_at A (update_at [j] (set_children props)) root1"
      by (simp only: update_at_append)
    also have "\<dots> = update_at A (write_alias n devs u ts) root1"
      using valid Some by (intro update_at_cong) (simp_all add: write_alias_def S_def props_def)
    finally show ?thesis .
  next
    case None
    define new where "new = Element ''alias'' [(''uuid'', u)] [] [] []"
    define k where "k = length (children S)"
    have "alias_upsert n devs u ts root
        = update_at (A @ [k]) (set_children props) (update_at A (append_child new) root1)"
      using None by (simp add: alias_upsert_def E fa props_def new_def k_def S_def)
    also have "\<dots> = update_at A (update_at [k] (set_children props))
                       (update_at A (append_child new) root1)"
      by (simp only: update_at_append)
    also have "\<dots> = update_at A (\<lambda>x. update_at [k] (set_children props) (append_child new x)) root1"
      using valid by (rule update_at_twice)
    also have "\<dots> = update_at A (write_alias n devs u ts) root1"
      using valid None
      by (intro update_at_cong)
        (simp_all add: write_alias_def S_def [symmetric] props_def k_def new_def append_child_def
          set_children_def)
    finally show ?thesis .
  qed
qed

text \<open>
  What a second write does to the section that a first write left: it finds
  the alias of the first write and replaces its children.
\<close>

lemma write_alias_found:
  assumes "n \<noteq> []"
  shows "\<exists>j. find_index (alias_named n) (children (write_alias n devs u1 ts1 S)) = Some j
           \<and> children (children (write_alias n devs u1 ts1 S) ! j) = alias_properties n devs ts1
           \<and> write_alias n devs u2 ts2 (write_alias n devs u1 ts1 S)
               = update_at [j] (set_children (alias_properties n devs ts2)) (write_alias n devs u1 ts1 S)
           \<and> write_alias n devs u2 ts2 (write_alias n devs u1 ts1 S) = write_alias n devs u1 ts2 S"
proof (cases "find_index (alias_named n) (children S)")
  case (Some j)
  define props1 where "props1 = alias_properties n devs ts1"
  define props2 where "props2 = alias_properties n devs ts2"
  define W1 where "W1 = write_alias n devs u1 ts1 S"
  from Some have j: "j < length (children S)" and named: "alias_named n (children S ! j)"
    by (simp_all add: find_index_iff)
  from named have t: "tag (children S ! j) = ''alias''"
    by (simp add: alias_named_def)
  have W1: "W1 = set_children ((children S)[j := set_children props1 (children S ! j)]) S"
    using Some by (simp add: W1_def write_alias_def props1_def)
  have named': "alias_named n (set_children props1 (children S ! j))"
    unfolding props1_def using t assms by (rule alias_named_properties)
  have f1: "find_index (alias_named n) (children W1) = Some j"
    using Some named' by (simp add: W1 find_index_update_same)
  have c1: "children (children W1 ! j) = props1"
    using j by (simp add: W1)
  have w2: "write_alias n devs u2 ts2 W1 = update_at [j] (set_children props2) W1"
    using f1 by (simp add: write_alias_def props2_def)
  have "update_at [j] (set_children props2) W1
      = set_children ((children S)[j := set_children props2 (children S ! j)]) S"
    using j by (simp add: W1 set_children_def)
  also have "\<dots> = write_alias n devs u1 ts2 S"
    using Some by (simp add: write_alias_def props2_def)
  finally have "update_at [j] (set_children props2) W1 = write_alias n devs u1 ts2 S" .
  with f1 c1 w2 show ?thesis
    unfolding W1_def props1_def props2_def by auto
next
  case None
  define props1 where "props1 = alias_properties n devs ts1"
  define props2 where "props2 = alias_properties n devs ts2"
  define W1 where "W1 = write_alias n devs u1 ts1 S"
  define k where "k = length (children S)"
  define new1 where "new1 = Element ''alias'' [(''uuid'', u1)] [] [] props1"
  have W1: "W1 = set_children (children S @ [new1]) S"
    using None by (simp add: W1_def write_alias_def props1_def new1_def append_child_def)
  have "new1 = set_children props1 (Element ''alias'' [(''uuid'', u1)] [] [] [])"
    by (simp add: new1_def set_children_def)
  then have named': "alias_named n new1"
    unfolding props1_def using assms alias_named_properties by simp
  have f1: "find_index (alias_named n) (children W1) = Some k"
    using None named' by (simp add: W1 find_index_append_new k_def)
  have c1: "children (children W1 ! k) = props1"
    by (simp add: W1 k_def new1_def)
  have w2: "write_alias n devs u2 ts2 W1 = update_at [k] (set_children props2) W1"
    using f1 by (simp add: write_alias_def props2_def)
  have "update_at [k] (set_children props2) W1
      = set_children (children S @ [Element ''alias'' [(''uuid'', u1)] [] [] props2]) S"
    by (simp add: W1 k_def set_children_def new1_def)
  also have "\<dots> = write_alias n devs u1 ts2 S"
    using None by (simp add: write_alias_def props2_def append_child_def)
  finally have "update_at [k] (set_children props2) W1 = write_alias n devs u1 ts2 S" .
  with f1 c1 w2 show ?thesis
    unfolding W1_def props1_def props2_def by auto
qed


lemma alias_upsert_twice:
  assumes one: "one_alias_section root" and n: "n \<noteq> []"
  shows "\<exists>p. find_alias_by_name (alias_upsert n devs u1 ts1 root) n = Some p
           \<and> valid_path (alias_upsert n devs u1 ts1 root) p
           \<and> tag (subtree (alias_upsert n devs u1 ts1 root) p) = ''alias''
           \<and> children (subtree (alias_upsert n devs u1 ts1 root) p) = alias_properties n devs ts1
           \<and> alias_upsert n devs u2 ts2 (alias_upsert n devs u1 ts1 root)
               = update_at p (set_children (alias_properties n devs ts2))
                   (alias_upsert n devs u1 ts1 root)
           \<and> find_alias_by_name (alias_upsert n devs u2 ts2 (alias_upsert n devs u1 ts1 root)) n
               = Some p"
    and "alias_upsert n devs u2 ts2 (alias_upsert n devs u1 ts1 root) = alias_upsert n devs u1 ts2 root"
proof -
  obtain root1 A where E: "ensure_sections root = (root1, A)"
    by (cases "ensure_sections root") auto
  with one have H: "iter_find ''OPNsense'' aliases_path root1 = Some A"
    by (simp add: one_alias_section_def)
  define R where "R = alias_upsert n devs u1 ts1 root"
  define S where "S = subtree root1 A"
  define W1 where "W1 = write_alias n devs u1 ts1"
  define props2 where "props2 = alias_properties n devs ts2"
  have R: "R = update_at A W1 root1"
    unfolding R_def W1_def using E H by (rule alias_upsert_write_alias)
  have g: "\<And>x. tag (W1 x) = tag x"
    by (simp add: W1_def)
  from write_alias_found [OF n, of devs u1 ts1 S u2 ts2] obtain j
    where j: "find_index (alias_named n) (children (W1 S)) = Some j"
      and c: "children (children (W1 S) ! j) = alias_properties n devs ts1"
      and w: "write_alias n devs u2 ts2 (W1 S) = update_at [j] (set_children props2) (W1 S)"
      and ww: "write_alias n devs u2 ts2 (W1 S) = write_alias n devs u1 ts2 S"
    unfolding W1_def props2_def by blast
  have fol: "follows root1 [''OPNsense'', ''Firewall'', ''Alias'', ''aliases''] A"
    using E by (rule ensure_sections_follows)
  then have valid: "valid_path root1 A"
    using follows_valid by blast
  have folR: "follows R [''OPNsense'', ''Firewall'', ''Alias'', ''aliases''] A"
    unfolding R using g fol by (rule follows_update_at)
  then have E': "ensure_sections R = (R, A)"
    by (rule follows_ensure_sections)
  have H': "iter_find ''OPNsense'' aliases_path R = Some A"
    unfolding R using iter_stable(1) [OF g H] by simp
  have sub: "subtree R A = W1 S"
    unfolding R S_def using valid by (rule subtree_update_at)
  have found: "find_alias_by_name R n = Some (A @ [j])"
    by (simp add: find_alias_by_name_def H' sub j)
  have validR: "valid_path R A"
    unfolding R using valid by (rule valid_path_update_at)
  have jl: "j < length (children (W1 S))"
    using j by (rule find_index_less)
  have vj: "valid_path R (A @ [j])"
    using validR jl by (simp add: valid_path_append sub)
  have sj: "subtree R (A @ [j]) = children (W1 S) ! j"
    by (simp add: subtree_append sub)
  have tg: "tag (children (W1 S) ! j) = ''alias''"
    using j by (simp add: find_index_iff alias_named_def)
  have second: "alias_upsert n devs u2 ts2 R = update_at (A @ [j]) (set_children props2) R"
    by (simp add: alias_upsert_def E' found props2_def)
  define R2 where "R2 = update_at (A @ [j]) (set_children props2) R"
  define G where "G = update_at [j] (set_children props2)"
  have R2: "R2 = update_at A G R"
    by (simp only: R2_def G_def update_at_append)
  have g2: "\<And>x. tag (G x) = tag x"
    by (simp add: G_def)
  have H2: "iter_find ''OPNsense'' aliases_path R2 = Some A"
    unfolding R2 using iter_stable(1) [OF g2 H'] by simp
  have "subtree R2 A = G (subtree R A)"
    unfolding R2 using validR by (rule subtree_update_at)
  then have sub2: "subtree R2 A = update_at [j] (set_children props2) (W1 S)"
    by (simp add: sub G_def)
  have "alias_named n (set_children props2 (children (W1 S) ! j))"
    unfolding props2_def using tg n by (rule alias_named_properties)
  then have "find_index (alias_named n) (children (update_at [j] (set_children props2) (W1 S))) = Some j"
    using j by (simp add: find_index_update_same)
  then have found2: "find_alias_by_name R2 n = Some (A @ [j])"
    by (simp add: find_alias_by_name_def H2 sub2)
  show "\<exists>p. find_alias_by_name (alias_upsert n devs u1 ts1 root) n = Some p
           \<and> valid_path (alias_upsert n devs u1 ts1 root) p
           \<and> tag (subtree (alias_upsert n devs u1 ts1 root) p) = ''alias''
           \<and> children (subtree (alias_upsert n devs u1 ts1 root) p) = alias_properties n devs ts1
           \<and> alias_upsert n devs u2 ts2 (alias_upsert n devs u1 ts1 root)
               = update_at p (set_children (alias_properties n devs ts2))
                   (alias_upsert n devs u1 ts1 root)
           \<and> find_alias_by_name (alias_upsert n devs u2 ts2 (alias_upsert n devs u1 ts1 root)) n
               = Some p"
    using found vj sj tg c second found2
    unfolding R_def [symmetric] props2_def [symmetric] R2_def [symmetric]
    by (intro exI [of _ "A @ [j]"]) (simp add: R2_def)
  have "alias_upsert n devs u2 ts2 R = update_at A (write_alias n devs u2 ts2) R"
    using E' H' by (rule alias_upsert_write_alias)
  also have "\<dots> = update_at A (\<lambda>x. write_alias n devs u2 ts2 (W1 x)) root1"
    unfolding R using valid by (rule update_at_twice)
  also have "\<dots> = update_at A (write_alias n devs u1 ts2) root1"
    using valid ww by (intro update_at_cong) (simp_all add: S_def)
  also have "\<dots> = alias_upsert n devs u1 ts2 root"
    using alias_upsert_write_alias [OF E H] by simp
  finally show "alias_upsert n devs u2 ts2 (alias_upsert n devs u1 ts1 root) = alias_upsert n devs u1 ts2 root"
    by (simp add: R_def)
qed


lemma parsed_text_nonempty: "parsed_text n \<Longrightarrow> n \<noteq> []"
  by (simp add: parsed_text_def)

text \<open>
  C7, as the code has it. The description of the alias embeds the time of the
  run, so the alias that a second run leaves is the alias of the first run with
  the description of the second. For a document on which the lookup and the
  creation of the alias agree on the section (\<open>one_alias_section\<close>) and a name
  that is read back as it was written (\<open>parsed_text\<close>): the first run leaves an
  alias \<open>a\<close> with the name, whose children are the properties written at its
  time \<open>ts1\<close>; the second run finds \<open>a\<close> at its path \<open>p\<close> and only replaces its
  children by the properties at its time \<open>ts2\<close>, which differ from the former
  in the last one, the description; the uuid \<open>u2\<close> that the second run would
  give to a new alias is not used. So the two runs give the document of one run
  at the time of the second, and when both read the same time the second run
  changes nothing.
\<close>

theorem alias_upsert_last_run_wins:
  assumes "one_alias_section root" "parsed_text n"
  shows "(\<exists>p a. find_alias_by_name (alias_upsert n devs u1 ts1 root) n = Some p
            \<and> alias_subtree (alias_upsert n devs u1 ts1 root) n = Some a
            \<and> children a = alias_properties n devs ts1
            \<and> alias_upsert n devs u2 ts2 (alias_upsert n devs u1 ts1 root)
                = update_at p (set_children (alias_properties n devs ts2))
                    (alias_upsert n devs u1 ts1 root)
            \<and> find_alias_by_name (alias_upsert n devs u2 ts2 (alias_upsert n devs u1 ts1 root)) n
                = Some p
            \<and> alias_subtree (alias_upsert n devs u2 ts2 (alias_upsert n devs u1 ts1 root)) n
                = Some (set_children (alias_properties n devs ts2) a))
     \<and> butlast (alias_properties n devs ts2) = butlast (alias_properties n devs ts1)
     \<and> last (alias_properties n devs ts2) = leaf ''description'' (alias_description devs ts2)
     \<and> alias_upsert n devs u2 ts2 (alias_upsert n devs u1 ts1 root) = alias_upsert n devs u1 ts2 root
     \<and> (ts2 = ts1 \<longrightarrow>
          alias_upsert n devs u2 ts2 (alias_upsert n devs u1 ts1 root) = alias_upsert n devs u1 ts1 root)"
proof -
  have n: "n \<noteq> []"
    using assms(2) by (rule parsed_text_nonempty)
  define R1 where "R1 = alias_upsert n devs u1 ts1 root"
  define R2 where "R2 = alias_upsert n devs u2 ts2 R1"
  define props2 where "props2 = alias_properties n devs ts2"
  from alias_upsert_twice(1) [OF assms(1) n, of devs u1 ts1 u2 ts2] obtain p
    where f1: "find_alias_by_name R1 n = Some p" and v: "valid_path R1 p"
      and c: "children (subtree R1 p) = alias_properties n devs ts1"
      and r2: "R2 = update_at p (set_children props2) R1"
      and f2: "find_alias_by_name R2 n = Some p"
    unfolding R1_def R2_def props2_def by blast
  have "subtree R2 p = set_children props2 (subtree R1 p)"
    unfolding r2 using v by (rule subtree_update_at)
  with f1 f2 c r2 have first: "\<exists>p a. find_alias_by_name R1 n = Some p
            \<and> alias_subtree R1 n = Some a
            \<and> children a = alias_properties n devs ts1
            \<and> R2 = update_at p (set_children props2) R1
            \<and> find_alias_by_name R2 n = Some p
            \<and> alias_subtree R2 n = Some (set_children props2 a)"
    by (simp add: alias_subtree_def)
  have last_wins: "R2 = alias_upsert n devs u1 ts2 root"
    unfolding R2_def R1_def using assms(1) n by (rule alias_upsert_twice(2))
  have "butlast (alias_properties n devs ts2) = butlast (alias_properties n devs ts1)"
    and "last (alias_properties n devs ts2) = leaf ''description'' (alias_description devs ts2)"
    by (simp_all add: alias_properties_def)
  with first last_wins show ?thesis
    unfolding R1_def R2_def props2_def by auto
qed

theorem alias_upsert_last_run_wins_witness:
  "one_alias_section sample_config \<and> parsed_text ''ParentalControlMACs''
   \<and> alias_upsert ''ParentalControlMACs'' [kids_tablet] ''u2'' ''2024-01-01 00:00:01''
        (alias_upsert ''ParentalControlMACs'' [kids_tablet] ''u1'' ''2024-01-01 00:00:00'' sample_config)
       = alias_upsert ''ParentalControlMACs'' [kids_tablet] ''u1'' ''2024-01-01 00:00:01'' sample_config
   \<and> alias_upsert ''ParentalControlMACs'' [kids_tablet] ''u2'' ''2024-01-01 00:00:00''
        (alias_upsert ''ParentalControlMACs'' [kids_tablet] ''u1'' ''2024-01-01 00:00:00'' sample_config)
       = alias_upsert ''ParentalControlMACs'' [kids_tablet] ''u1'' ''2024-01-01 00:00:00'' sample_config"
proof -
  have h: "one_alias_section sample_config \<and> parsed_text ''ParentalControlMACs''"
    by code_simp
  from alias_upsert_last_run_wins [of sample_config "''ParentalControlMACs''" "[kids_tablet]"
      "''u1''" "''2024-01-01 00:00:00''" "''u2''" "''2024-01-01 00:00:01''"]
    alias_upsert_last_run_wins [of sample_config "''ParentalControlMACs''" "[kids_tablet]"
      "''u1''" "''2024-01-01 00:00:00''" "''u2''" "''2024-01-01 00:00:00''"] h
  show ?thesis by blast
qed

text \<open>
  C7, as the claim states it, fails: a second run one second later writes
  another description, so the alias element differs from the one of the first
  run (and so does its serialization, which contains the text).
\<close>

theorem alias_description_counterexample:
  "alias_subtree
     (alias_upsert ''ParentalControlMACs'' [kids_tablet] ''u2'' ''2024-01-01 00:00:01''
        (alias_upsert ''ParentalControlMACs'' [kids_tablet] ''u1'' ''2024-01-01 00:00:00'' sample_config))
     ''ParentalControlMACs''
   \<noteq> alias_subtree
     (alias_upsert ''ParentalControlMACs'' [kids_tablet] ''u1'' ''2024-01-01 00:00:00'' sample_config)
     ''ParentalControlMACs''"
  by code_simp

text \<open>
  Without \<open>one_alias_section\<close> the second run may append a second alias: the
  lookup searches \<^verbatim>\<open>.//OPNsense/Firewall/Alias/aliases\<close> among all descendants,
  the creation goes through the children of the root.
\<close>

lemma nested_section_second_alias:
  "\<not> one_alias_section nested_config
   \<and> alias_upsert ''ParentalControlMACs'' [kids_tablet] ''u2'' ''2024-01-01 00:00:00''
        (alias_upsert ''ParentalControlMACs'' [kids_tablet] ''u1'' ''2024-01-01 00:00:00'' nested_config)
       \<noteq> alias_upsert ''ParentalControlMACs'' [kids_tablet] ''u1'' ''2024-01-01 00:00:00'' nested_config"
  by code_simp

text \<open>With an empty name the lookup never finds the alias, and every run appends one.\<close>

lemma empty_name_second_alias:
  "one_alias_section sample_config
   \<and> alias_upsert [] [kids_tablet] ''u2'' ''2024-01-01 00:00:00''
        (alias_upsert [] [kids_tablet] ''u1'' ''2024-01-01 00:00:00'' sample_config)
       \<noteq> alias_upsert [] [kids_tablet] ''u1'' ''2024-01-01 00:00:00'' sample_config"
  by code_simp

end
